theory Spec2Isabelle
  imports Main "HOL-Library.Sublist"
begin

section \<open>Mountpoint resolution of fscrypt (filesystem/mountpoint.go)\<close>

text \<open>
  Go strings are byte sequences; they are modelled as \<open>string\<close> (lists of 8-bit
  characters).  The characters the code compares against are named here.
\<close>

abbreviation backslash :: char where "backslash \<equiv> CHR 0x5C"
abbreviation slash :: char where "slash \<equiv> CHR ''/''"

subsection \<open>Go standard library: \<open>strconv.ParseInt(s, 8, 8)\<close>\<close>

datatype num_error = ErrSyntax | ErrRange

text \<open>
  One digit of \<open>strconv.ParseUint\<close> in base 8: the characters \<open>0\<close> to \<open>7\<close> are digits,
  every other character (a digit or letter whose value is at least the base, an
  underscore, anything else) is a syntax error.
\<close>

definition octal_digit :: "char \<Rightarrow> nat option" where
  "octal_digit c =
     (let n = (of_char c :: nat) in if 48 \<le> n \<and> n \<le> 55 then Some (n - 48) else None)"

text \<open>
  The digit loop of \<open>ParseUint(s, 8, 8)\<close>: \<open>maxVal\<close> is 255; the accumulated value is
  checked against it after every digit.
\<close>

fun ParseUint_loop :: "nat \<Rightarrow> string \<Rightarrow> num_error + nat" where
  "ParseUint_loop n [] = Inr n"
| "ParseUint_loop n (c # cs) =
     (case octal_digit c of
        None \<Rightarrow> Inl ErrSyntax
      | Some d \<Rightarrow>
          (let n1 = n * 8 + d in
           if n1 > 255 then Inl ErrRange else ParseUint_loop n1 cs))"

definition ParseUint_8_8 :: "string \<Rightarrow> num_error + nat" where
  "ParseUint_8_8 s = (if s = [] then Inl ErrSyntax else ParseUint_loop 0 s)"

text \<open>
  \<open>ParseInt(s, 8, 8)\<close>: an optional sign, then \<open>ParseUint\<close>; the result must fit a
  signed 8-bit integer (\<open>cutoff\<close> is 128).
\<close>

definition ParseInt_8_8 :: "string \<Rightarrow> num_error + int" where
  "ParseInt_8_8 s =
     (if s = [] then Inl ErrSyntax
      else
        (let neg = (hd s = CHR ''-'');
             s1 = (if hd s = CHR ''+'' \<or> hd s = CHR ''-'' then tl s else s)
         in case ParseUint_8_8 s1 of
              Inl e \<Rightarrow> Inl e
            | Inr un \<Rightarrow>
                if \<not> neg \<and> un \<ge> 128 then Inl ErrRange
                else if neg \<and> un > 128 then Inl ErrRange
                else Inr (if neg then - int un else int un)))"

subsection \<open>unescapeString\<close>

text \<open>
  The loop of \<open>unescapeString\<close>, with the index \<open>i\<close> and the builder \<open>sb\<close> as
  arguments.  \<open>uint8(parsed)\<close> is \<open>char_of\<close>, which keeps the low eight bits.
\<close>

function unescape_loop :: "string \<Rightarrow> nat \<Rightarrow> string \<Rightarrow> string" where
  "unescape_loop str i sb =
     (if i < length str then
        (let b = str ! i in
         if b = backslash \<and> i + 3 < length str then
           (case ParseInt_8_8 (take 3 (drop (i + 1) str)) of
              Inr parsed \<Rightarrow> unescape_loop str (i + 3 + 1) (sb @ [char_of parsed])
            | Inl err \<Rightarrow> unescape_loop str (i + 1) (sb @ [b]))
         else unescape_loop str (i + 1) (sb @ [b]))
      else sb)"
  by pat_completeness auto
termination
  by (relation "measure (\<lambda>(str, i, sb). length str - i)") auto

definition unescapeString :: "string \<Rightarrow> string" where
  "unescapeString str = unescape_loop str 0 []"

text \<open>
  Modelled from the spec: the kernel's escaping of mountinfo fields is not part of this
  repository.  The spec says that the kernel encodes the space, tab, newline and
  backslash bytes as a backslash followed by a three-digit octal value; every other
  byte is written as it is.
\<close>

definition octal3 :: "nat \<Rightarrow> string" where
  "octal3 n = [char_of (48 + n div 64), char_of (48 + (n div 8) mod 8), char_of (48 + n mod 8)]"

definition escape_byte :: "char \<Rightarrow> string" where
  "escape_byte c =
     (if c = CHR '' '' \<or> c = CHR 0x09 \<or> c = CHR 0x0A \<or> c = backslash
      then backslash # octal3 (of_char c) else [c])"

definition escape :: "string \<Rightarrow> string" where
  "escape s = concat (map escape_byte s)"

subsection \<open>Go standard library: \<open>strings.Split\<close>, \<open>strings.Join\<close> and \<open>path/filepath\<close>\<close>

text \<open>
  \<open>strings.Split(s, sep)\<close> for a separator of one byte: cut at the first separator,
  go on with what follows it; a string without the separator is the last field.
\<close>

function Split :: "string \<Rightarrow> char \<Rightarrow> string list" where
  "Split s sep =
     (case dropWhile (\<lambda>c. c \<noteq> sep) s of
        [] \<Rightarrow> [s]
      | c # after \<Rightarrow> takeWhile (\<lambda>c. c \<noteq> sep) s # Split after sep)"
  by pat_completeness auto
termination
proof (relation "measure (\<lambda>(s, sep). length s)")
  show "wf (measure (\<lambda>(s, sep). length s))" by simp
next
  fix s :: string and sep c after
  assume "dropWhile (\<lambda>c. c \<noteq> sep) s = c # after"
  then have "length (c # after) \<le> length s"
    by (metis length_dropWhile_le)
  then show "((after, sep), (s, sep)) \<in> measure (\<lambda>(s, sep). length s)" by simp
qed

fun strings_Join :: "string list \<Rightarrow> string \<Rightarrow> string" where
  "strings_Join [] sep = []"
| "strings_Join [e] sep = e"
| "strings_Join (e # es) sep = e @ sep @ strings_Join es sep"

text \<open>
  \<open>filepath.Clean\<close> on Unix, element by element.  \<open>out\<close> holds the elements written
  so far.  An empty element and \<open>.\<close> are dropped; \<open>..\<close> removes the last
  element written when there is one that is not itself \<open>..\<close>, is dropped at the root
  of a rooted path, and is kept in front of an unrooted one; any other element is
  written.
\<close>

fun Clean_elems :: "bool \<Rightarrow> string list \<Rightarrow> string list \<Rightarrow> string list" where
  "Clean_elems rooted out [] = out"
| "Clean_elems rooted out (e # es) =
     (if e = [] \<or> e = ''.'' then Clean_elems rooted out es
      else if e = ''..'' then
        (if out \<noteq> [] \<and> last out \<noteq> ''..'' then Clean_elems rooted (butlast out) es
         else if \<not> rooted then Clean_elems rooted (out @ [''..'']) es
         else Clean_elems rooted out es)
      else Clean_elems rooted (out @ [e]) es)"

definition Clean :: "string \<Rightarrow> string" where
  "Clean path =
     (if path = [] then ''.''
      else
        (let rooted = (hd path = slash);
             out = Clean_elems rooted [] (Split path slash)
         in if rooted then slash # strings_Join out ''/''
            else if out = [] then ''.''
            else strings_Join out ''/''))"

text \<open>
  \<open>filepath.Dir\<close>: everything up to and including the last separator, cleaned.
\<close>

definition Dir :: "string \<Rightarrow> string" where
  "Dir path = Clean (rev (dropWhile (\<lambda>c. c \<noteq> slash) (rev path)))"

text \<open>
  \<open>filepath.Base\<close>: the last element, after trailing separators are removed.
\<close>

definition Base :: "string \<Rightarrow> string" where
  "Base path =
     (if path = [] then ''.''
      else
        (let p = rev (dropWhile (\<lambda>c. c = slash) (rev path));
             b = rev (takeWhile (\<lambda>c. c \<noteq> slash) (rev p))
         in if b = [] then ''/'' else b))"

text \<open>
  \<open>filepath.Join\<close>: the elements from the first non-empty one on, joined with
  separators and cleaned.
\<close>

definition Join :: "string list \<Rightarrow> string" where
  "Join elem =
     (case dropWhile (\<lambda>e. e = []) elem of
        [] \<Rightarrow> []
      | es \<Rightarrow> Clean (strings_Join es ''/''))"

subsection \<open>Data model\<close>

record Mount =
  Path :: string
  FilesystemType :: string
  Device :: string

datatype sentinel = ErrNotAMountpoint | ErrFollowLink | ErrMakeLink

text \<open>
  \<open>Wrap e msg\<close> is \<open>errors.Wrap(e, msg)\<close>; \<open>Wrapf e format arg\<close> is
  \<open>errors.Wrapf(e, format, arg)\<close> with its format string and its one argument;
  \<open>OSError msg\<close> is an error handed up from the operating system or from
  \<open>canonicalizePath\<close>.
\<close>

datatype error =
    Wrap sentinel string
  | Wrapf sentinel string string
  | OSError string

definition uuidToken :: string where
  "uuidToken = ''UUID''"

definition uuidDirectory :: string where
  "uuidDirectory = ''/dev/disk/by-uuid''"

text \<open>
  What the package reads from outside: \<open>canonicalizePath\<close>, \<open>isDir\<close> and
  \<open>isDevice\<close> (defined elsewhere in the package), the lines that \<open>bufio.Scanner\<close>
  yields for \<open>/proc/self/mountinfo\<close> (or the error of \<open>os.Open\<close>), and the entries of
  a directory as \<open>ioutil.ReadDir\<close> lists them, each with its name and whether it is a
  symbolic link (or the message of its error).
\<close>

record env =
  canonicalizePath :: "string \<Rightarrow> error + string"
  isDir :: "string \<Rightarrow> bool"
  isDevice :: "string \<Rightarrow> bool"
  mountinfo :: "error + string list"
  ReadDir :: "string \<Rightarrow> string + (string \<times> bool) list"

datatype fs_access =
    Canonicalize string
  | IsDir string
  | IsDevice string
  | OpenMountinfo
  | ListDir string

text \<open>
  The package's variables.  A \<open>*Mount\<close> is an index into \<open>heap\<close>, the Mount objects
  allocated so far.  \<open>fs_log\<close> records every access to the file system, in order.
\<close>

record state =
  heap :: "Mount list"
  mountsByPath :: "string \<rightharpoonup> nat"
  mountsByDevice :: "string \<rightharpoonup> nat list"
  mountsInitialized :: bool
  fs_log :: "fs_access list"

definition initial_state :: state where
  "initial_state =
     \<lparr>heap = [], mountsByPath = Map.empty, mountsByDevice = Map.empty,
      mountsInitialized = False, fs_log = []\<rparr>"

definition access :: "fs_access \<Rightarrow> state \<Rightarrow> state" where
  "access a s = s\<lparr>fs_log := fs_log s @ [a]\<rparr>"

text \<open>
  Reading \<open>mountsByDevice[d]\<close>: the nil slice when the key is absent.
\<close>

definition device_list :: "state \<Rightarrow> string \<Rightarrow> nat list" where
  "device_list s d = (case mountsByDevice s d of None \<Rightarrow> [] | Some l \<Rightarrow> l)"

subsection \<open>parseMountInfoLine\<close>

text \<open>
  The loop that counts the optional fields (the source's \<open>fields\<close> is \<open>flds\<close> here): \<open>for fields[n] != "-" { n++; if n >= len(fields) { return nil } }\<close>.
\<close>

function find_separator :: "string list \<Rightarrow> nat \<Rightarrow> nat option" where
  "find_separator flds n =
     (if flds ! n \<noteq> ''-'' then
        (if n + 1 \<ge> length flds then None else find_separator flds (n + 1))
      else Some n)"
  by pat_completeness auto
termination
  by (relation "measure (\<lambda>(flds, n). length flds - n)") auto

definition parseMountInfoLine :: "string \<Rightarrow> Mount option" where
  "parseMountInfoLine line =
     (let flds = Split line (CHR '' '') in
      if length flds < 10 then None
      else
        (case find_separator flds 6 of
           None \<Rightarrow> None
         | Some n \<Rightarrow>
             if n + 3 \<ge> length flds then None
             else Some \<lparr>Path = unescapeString (flds ! 4),
                        FilesystemType = unescapeString (flds ! (n + 1)),
                        Device = unescapeString (flds ! (n + 2))\<rparr>))"

subsection \<open>loadMountInfo\<close>

text \<open>
  The body of the scanning loop for one line.  \<open>mnt\<close> is the pointer that
  \<open>parseMountInfoLine\<close> returns, a fresh object.  Each \<open>continue\<close> of the source
  returns the state reached so far.  The Mount is stored in \<open>mountsByPath\<close> before its
  device is settled; both indexes hold the pointer, so they see the final device.  When
  \<open>canonicalizePath\<close> fails, the value it returns beside the error is not modelled:
  for the path the Mount is dropped, and for the device the field is set to the empty
  string right after.
\<close>

definition scan_line :: "env \<Rightarrow> string \<Rightarrow> state \<Rightarrow> state" where
  "scan_line os line s =
     (case parseMountInfoLine line of
        None \<Rightarrow> s
      | Some m \<Rightarrow>
          (let mnt = length (heap s);
               s1 = access (Canonicalize (Path m)) (s\<lparr>heap := heap s @ [m]\<rparr>)
           in case canonicalizePath os (Path m) of
                Inl err \<Rightarrow> s1
              | Inr p \<Rightarrow>
                  (let s2 = access (IsDir p) (s1\<lparr>heap := (heap s1)[mnt := (heap s1 ! mnt)\<lparr>Path := p\<rparr>]\<rparr>)
                   in if \<not> isDir os p then s2
                      else
                        (let s3 = s2\<lparr>mountsByPath := (mountsByPath s2)(p \<mapsto> mnt)\<rparr>;
                             s4 = access (Canonicalize (Device m)) s3
                         in case canonicalizePath os (Device m) of
                              Inr d \<Rightarrow>
                                (let s5 = access (IsDevice d)
                                            (s4\<lparr>heap := (heap s4)[mnt := (heap s4 ! mnt)\<lparr>Device := d\<rparr>]\<rparr>)
                                 in if isDevice os d then
                                      s5\<lparr>mountsByDevice := (mountsByDevice s5)
                                            (d \<mapsto> (case mountsByDevice s5 d of None \<Rightarrow> [] | Some l \<Rightarrow> l) @ [mnt])\<rparr>
                                    else s5\<lparr>heap := (heap s5)[mnt := (heap s5 ! mnt)\<lparr>Device := []\<rparr>]\<rparr>)
                            | Inl err \<Rightarrow>
                                s4\<lparr>heap := (heap s4)[mnt := (heap s4 ! mnt)\<lparr>Device := []\<rparr>]\<rparr>))))"

fun scan_lines :: "env \<Rightarrow> string list \<Rightarrow> state \<Rightarrow> state" where
  "scan_lines os [] s = s"
| "scan_lines os (line # lines) s = scan_lines os lines (scan_line os line s)"

definition loadMountInfo :: "env \<Rightarrow> state \<Rightarrow> error option \<times> state" where
  "loadMountInfo os s =
     (if mountsInitialized s then (None, s)
      else
        (let s1 = access OpenMountinfo
                    (s\<lparr>mountsByPath := Map.empty, mountsByDevice := Map.empty\<rparr>)
         in case mountinfo os of
              Inl err \<Rightarrow> (Some err, s1)
            | Inr lines \<Rightarrow> (None, (scan_lines os lines s1)\<lparr>mountsInitialized := True\<rparr>)))"

definition UpdateMountInfo :: "env \<Rightarrow> state \<Rightarrow> error option \<times> state" where
  "UpdateMountInfo os s = loadMountInfo os (s\<lparr>mountsInitialized := False\<rparr>)"

subsection \<open>GetMount\<close>

definition GetMount :: "env \<Rightarrow> string \<Rightarrow> state \<Rightarrow> (error + nat) \<times> state" where
  "GetMount os mountpoint s =
     (let s1 = access (Canonicalize mountpoint) s in
      case canonicalizePath os mountpoint of
        Inl err \<Rightarrow> (Inl err, s1)
      | Inr mountpoint' \<Rightarrow>
          (case loadMountInfo os s1 of
             (Some err, s2) \<Rightarrow> (Inl err, s2)
           | (None, s2) \<Rightarrow>
               (case mountsByPath s2 mountpoint' of
                  Some mnt \<Rightarrow> (Inr mnt, s2)
                | None \<Rightarrow> (Inl (Wrap ErrNotAMountpoint mountpoint'), s2))))"

subsection \<open>getMountsFromLink\<close>

definition getMountsFromLink :: "env \<Rightarrow> string \<Rightarrow> state \<Rightarrow> (error + nat list) \<times> state" where
  "getMountsFromLink os link s =
     (let linkComponents = Split link (CHR ''='') in
      if length linkComponents \<noteq> 2 then
        (Inl (Wrapf ErrFollowLink ''link %q format is invalid'' link), s)
      else
        (let token = linkComponents ! 0;
             value = linkComponents ! 1
         in if token \<noteq> uuidToken then
              (Inl (Wrapf ErrFollowLink ''token type %q not supported'' token), s)
            else
              (let searchPath = Join [uuidDirectory, value] in
               if Base searchPath \<noteq> value then
                 (Inl (Wrapf ErrFollowLink ''value %q is not a UUID'' value), s)
               else
                 (let s1 = access (Canonicalize searchPath) s in
                  case canonicalizePath os searchPath of
                    Inl err \<Rightarrow> (Inl (Wrapf ErrFollowLink ''no device with UUID %q'' value), s1)
                  | Inr devicePath \<Rightarrow>
                      (case loadMountInfo os s1 of
                         (Some err, s2) \<Rightarrow> (Inl err, s2)
                       | (None, s2) \<Rightarrow>
                           (case mountsByDevice s2 devicePath of
                              None \<Rightarrow>
                                (Inl (Wrapf ErrFollowLink ''no mounts for device %q'' devicePath), s2)
                            | Some mnts \<Rightarrow> (Inr mnts, s2)))))))"

subsection \<open>makeLink\<close>

text \<open>
  The loop over the entries of the UUID directory; the error after the loop is the
  result for the empty rest.  The Mount is passed by value: \<open>makeLink\<close> only reads
  \<open>mnt.Device\<close> and \<open>mnt.Path\<close>.
\<close>

fun scan_uuid_entries ::
  "env \<Rightarrow> Mount \<Rightarrow> (string \<times> bool) list \<Rightarrow> state \<Rightarrow> (error + string) \<times> state" where
  "scan_uuid_entries os mnt [] s =
     (Inl (Wrapf ErrMakeLink ''device %q has no UUID'' (Device mnt)), s)"
| "scan_uuid_entries os mnt ((uuid, symlink) # entries) s =
     (if \<not> symlink then scan_uuid_entries os mnt entries s
      else
        (let s1 = access (Canonicalize (Join [uuidDirectory, uuid])) s in
         case canonicalizePath os (Join [uuidDirectory, uuid]) of
           Inl err \<Rightarrow> scan_uuid_entries os mnt entries s1
         | Inr devicePath \<Rightarrow>
             if Device mnt = devicePath then (Inr (uuidToken @ ''='' @ uuid), s1)
             else scan_uuid_entries os mnt entries s1))"

definition makeLink :: "env \<Rightarrow> Mount \<Rightarrow> string \<Rightarrow> state \<Rightarrow> (error + string) \<times> state" where
  "makeLink os mnt token s =
     (if token \<noteq> uuidToken then
        (Inl (Wrapf ErrMakeLink ''token type %q not supported'' token), s)
      else if Device mnt = [] then
        (Inl (Wrapf ErrMakeLink ''no device for mount %q'' (Path mnt)), s)
      else
        (let s1 = access (ListDir uuidDirectory) s in
         case ReadDir os uuidDirectory of
           Inl msg \<Rightarrow> (Inl (Wrap ErrMakeLink msg), s1)
         | Inr dirContents \<Rightarrow> scan_uuid_entries os mnt dirContents s1))"

subsection \<open>FindMount\<close>

text \<open>
  The loop of \<open>FindMount\<close> walks from the path to its parent until the index has the
  path or \<open>filepath.Dir\<close> returns the path itself.  It ends because every step to a
  different parent lowers \<open>walk_measure\<close>: the parent is shorter, except that the
  parent of the empty path is \<open>.\<close>.  The lemmas up to \<open>Dir_measure\<close> prove just that.
\<close>

definition walk_measure :: "string \<Rightarrow> nat" where
  "walk_measure p = (if p = [] then 3 else 2 * length p + (if p = ''.'' then 0 else 1))"

declare Split.simps [simp del]

lemma Split_Nil: "Split [] sep = [[]]"
  by (simp add: Split.simps)

lemma Split_Cons:
  "Split (c # cs) sep =
     (if c = sep then [] # Split cs sep
      else (c # hd (Split cs sep)) # tl (Split cs sep))"
proof (cases "c = sep")
  case True
  then show ?thesis by (subst Split.simps) simp
next
  case False
  have a: "Split (c # cs) sep =
     (case dropWhile (\<lambda>c. c \<noteq> sep) cs of
        [] \<Rightarrow> [c # cs]
      | d # after \<Rightarrow> (c # takeWhile (\<lambda>c. c \<noteq> sep) cs) # Split after sep)"
    using False by (subst Split.simps) (simp cong: list.case_cong)
  have b: "Split cs sep =
     (case dropWhile (\<lambda>c. c \<noteq> sep) cs of
        [] \<Rightarrow> [cs]
      | d # after \<Rightarrow> takeWhile (\<lambda>c. c \<noteq> sep) cs # Split after sep)"
    by (subst Split.simps) simp
  show ?thesis
  proof (cases "dropWhile (\<lambda>c. c \<noteq> sep) cs")
    case Nil
    show ?thesis unfolding a b Nil using False by simp
  next
    case (Cons d after)
    show ?thesis unfolding a b Cons using False by simp
  qed
qed

lemma Split_not_Nil: "Split s sep \<noteq> []"
  by (cases s) (simp_all add: Split_Nil Split_Cons)

lemma Split_weight: "sum_list (map (\<lambda>e. Suc (length e)) (Split s sep)) = Suc (length s)"
proof (induction s)
  case Nil
  then show ?case by (simp add: Split_Nil)
next
  case (Cons c cs)
  obtain f fs where f: "Split cs sep = f # fs"
    using Split_not_Nil[of cs sep] by (cases "Split cs sep") auto
  show ?case using Cons f by (simp add: Split_Cons)
qed

lemma Split_last: "s = [] \<or> last s = sep \<Longrightarrow> last (Split s sep) = []"
proof (induction s)
  case Nil
  then show ?case by (simp add: Split_Nil)
next
  case (Cons c cs)
  obtain f fs where f: "Split cs sep = f # fs"
    using Split_not_Nil[of cs sep] by (cases "Split cs sep") auto
  show ?case
  proof (cases "cs = []")
    case True
    then show ?thesis using Cons.prems by (simp add: Split_Cons Split_Nil)
  next
    case False
    then have "last cs = sep" using Cons.prems by simp
    then have l: "last (f # fs) = []" using Cons.IH f by simp
    show ?thesis
    proof (cases "fs = []")
      case True
      then have "f = []" using l by simp
      then have "Split cs sep = [[]]" using f True by simp
      moreover have "cs \<noteq> [] \<Longrightarrow> Suc (length cs) = 1 \<Longrightarrow> False" by simp
      ultimately show ?thesis
        using Split_weight[of cs sep] False by simp
    next
      case F: False
      then show ?thesis using l f by (simp add: Split_Cons)
    qed
  qed
qed

lemma filter_weight:
  "sum_list (map (\<lambda>e. Suc (length e)) (filter P es)) \<le> sum_list (map (\<lambda>e. Suc (length e)) es)"
  by (induction es) auto

lemma filter_weight_last:
  assumes "es \<noteq> []" "last es = []"
  shows "Suc (sum_list (map (\<lambda>e. Suc (length e)) (filter (\<lambda>e. e \<noteq> []) es)))
           \<le> sum_list (map (\<lambda>e. Suc (length e)) es)"
proof -
  have "es = butlast es @ [[]]"
    using assms append_butlast_last_id[of es] by simp
  then obtain bs where e: "es = bs @ [[]]" ..
  show ?thesis
    unfolding e using filter_weight[of "\<lambda>e. e \<noteq> []" bs] by simp
qed

lemma butlast_weight:
  "sum_list (map (\<lambda>e. Suc (length e)) (butlast es)) \<le> sum_list (map (\<lambda>e. Suc (length e)) es)"
  by (induction es) auto

lemma Clean_elems_weight:
  "sum_list (map (\<lambda>e. Suc (length e)) (Clean_elems rooted out es))
     \<le> sum_list (map (\<lambda>e. Suc (length e)) out)
       + sum_list (map (\<lambda>e. Suc (length e)) (filter (\<lambda>e. e \<noteq> []) es))"
proof (induction es arbitrary: out)
  case Nil
  then show ?case by simp
next
  case (Cons e es)
  note ih = Cons.IH
  show ?case
  proof (cases "e = [] \<or> e = ''.''")
    case True
    then have c: "Clean_elems rooted out (e # es) = Clean_elems rooted out es" by auto
    have "sum_list (map (\<lambda>e. Suc (length e)) (filter (\<lambda>e. e \<noteq> []) es))
       \<le> sum_list (map (\<lambda>e. Suc (length e)) (filter (\<lambda>e. e \<noteq> []) (e # es)))" by simp
    then show ?thesis unfolding c using ih[of out] by linarith
  next
    case False
    show ?thesis
    proof (cases "e = ''..''")
      case True
      have w: "sum_list (map (\<lambda>e. Suc (length e)) (filter (\<lambda>e. e \<noteq> []) (e # es)))
           = 3 + sum_list (map (\<lambda>e. Suc (length e)) (filter (\<lambda>e. e \<noteq> []) es))"
        using True by simp
      show ?thesis
      proof (cases "out \<noteq> [] \<and> last out \<noteq> ''..''")
        case T2: True
        then have c: "Clean_elems rooted out (e # es) = Clean_elems rooted (butlast out) es"
          using True by simp
        show ?thesis unfolding c
          using ih[of "butlast out"] butlast_weight[of out] w by linarith
      next
        case F2: False
        show ?thesis
        proof (cases rooted)
          case T3: True
          then have c: "Clean_elems rooted out (e # es) = Clean_elems rooted out es"
            using True F2 by auto
          show ?thesis unfolding c using ih[of out] w by linarith
        next
          case F3: False
          then have c: "Clean_elems rooted out (e # es) = Clean_elems rooted (out @ [''..'']) es"
            using True F2 by auto
          have "sum_list (map (\<lambda>e. Suc (length e)) (out @ [''..'']))
             = sum_list (map (\<lambda>e. Suc (length e)) out) + 3" by simp
          then show ?thesis unfolding c using ih[of "out @ [''..'']"] w by linarith
        qed
      qed
    next
      case F: False
      then have c: "Clean_elems rooted out (e # es) = Clean_elems rooted (out @ [e]) es"
        using False by simp
      have "sum_list (map (\<lambda>e. Suc (length e)) (out @ [e]))
             = sum_list (map (\<lambda>e. Suc (length e)) out) + Suc (length e)" by simp
      moreover have "sum_list (map (\<lambda>e. Suc (length e)) (filter (\<lambda>e. e \<noteq> []) (e # es)))
           = Suc (length e) + sum_list (map (\<lambda>e. Suc (length e)) (filter (\<lambda>e. e \<noteq> []) es))"
        using False by simp
      ultimately show ?thesis unfolding c using ih[of "out @ [e]"] by linarith
    qed
  qed
qed

lemma strings_Join_length:
  "length (strings_Join es [c]) = sum_list (map (\<lambda>e. Suc (length e)) es) - 1"
proof (induction es)
  case Nil
  then show ?case by simp
next
  case (Cons e es)
  then show ?case by (cases es) simp_all
qed


lemma Clean_elems_nonempty:
  "[] \<notin> set out \<Longrightarrow> [] \<notin> set (Clean_elems rooted out es)"
proof (induction es arbitrary: out)
  case Nil
  then show ?case by simp
next
  case (Cons e es)
  have b: "[] \<notin> set (butlast out)" using Cons.prems by (meson in_set_butlastD)
  have d: "[] \<notin> set (out @ [''..''])" using Cons.prems by simp
  show ?case
    using Cons.IH[OF Cons.prems] Cons.IH[OF b] Cons.IH[OF d] Cons.IH[of "out @ [e]"] Cons.prems
    by auto
qed

lemma strings_Join_not_Nil:
  "es \<noteq> [] \<Longrightarrow> [] \<notin> set es \<Longrightarrow> strings_Join es sep \<noteq> []"
  by (cases es; cases "tl es") auto

lemma Clean_not_Nil: "Clean x \<noteq> []"
proof -
  have "[] \<notin> set (Clean_elems False [] (Split x slash))"
    by (rule Clean_elems_nonempty) simp
  then show ?thesis
    using strings_Join_not_Nil[of "Clean_elems False [] (Split x slash)" "''/''"]
    by (simp add: Clean_def Let_def)
qed

lemma Clean_slash: "Clean [slash] = [slash]"
  by (simp add: Clean_def Split.simps)

lemma Clean_length_slash:
  assumes "x \<noteq> []" "last x = slash"
  shows "length (Clean x) \<le> max 1 (length x - 1)"
proof (cases "hd x = slash")
  case True
  then obtain x' where x: "x = slash # x'" using assms(1) by (cases x) auto
  have l: "x' = [] \<or> last x' = slash" using assms(2) x by (auto split: if_splits)
  define out where "out = Clean_elems True [] (Split x slash)"
  have sp: "Split x slash = [] # Split x' slash" by (simp add: x Split_Cons)
  have "sum_list (map (\<lambda>e. Suc (length e)) out)
          \<le> sum_list (map (\<lambda>e. Suc (length e)) (filter (\<lambda>e. e \<noteq> []) (Split x' slash)))"
    using Clean_elems_weight[of True "[]" "Split x slash"] by (simp add: out_def sp)
  moreover have "Suc (sum_list (map (\<lambda>e. Suc (length e)) (filter (\<lambda>e. e \<noteq> []) (Split x' slash))))
          \<le> Suc (length x')"
    using filter_weight_last[OF Split_not_Nil Split_last[OF l]] Split_weight[of x' slash]
    by simp
  ultimately have w: "sum_list (map (\<lambda>e. Suc (length e)) out) \<le> length x - 1"
    using x by simp
  have "Clean x = slash # strings_Join out ''/''"
    using True assms(1) by (simp add: Clean_def out_def)
  then have "length (Clean x) = 1 + (sum_list (map (\<lambda>e. Suc (length e)) out) - 1)"
    by (simp add: strings_Join_length)
  then show ?thesis using w by simp
next
  case False
  define out where "out = Clean_elems False [] (Split x slash)"
  have l: "x = [] \<or> last x = slash" using assms(2) by simp
  have "sum_list (map (\<lambda>e. Suc (length e)) out)
          \<le> sum_list (map (\<lambda>e. Suc (length e)) (filter (\<lambda>e. e \<noteq> []) (Split x slash)))"
    using Clean_elems_weight[of False "[]" "Split x slash"] by (simp add: out_def)
  moreover have "Suc (sum_list (map (\<lambda>e. Suc (length e)) (filter (\<lambda>e. e \<noteq> []) (Split x slash))))
          \<le> Suc (length x)"
    using filter_weight_last[OF Split_not_Nil Split_last[OF l]] Split_weight[of x slash]
    by simp
  ultimately have w: "sum_list (map (\<lambda>e. Suc (length e)) out) \<le> length x" by simp
  have c: "Clean x = (if out = [] then ''.'' else strings_Join out ''/'')"
    using False assms(1) by (simp add: Clean_def out_def)
  show ?thesis
  proof (cases "out = []")
    case True
    then show ?thesis using c by simp
  next
    case F: False
    then have "length (Clean x) = sum_list (map (\<lambda>e. Suc (length e)) out) - 1"
      using c by (simp add: strings_Join_length)
    then show ?thesis using w by simp
  qed
qed

lemma Dir_measure:
  assumes "Dir p \<noteq> p"
  shows "walk_measure (Dir p) < walk_measure p"
proof -
  define x where "x = rev (dropWhile (\<lambda>c. c \<noteq> slash) (rev p))"
  define r where "r = rev (takeWhile (\<lambda>c. c \<noteq> slash) (rev p))"
  have "x @ r = rev (takeWhile (\<lambda>c. c \<noteq> slash) (rev p) @ dropWhile (\<lambda>c. c \<noteq> slash) (rev p))"
    unfolding x_def r_def by (simp only: rev_append)
  also have "\<dots> = rev (rev p)" by (simp only: takeWhile_dropWhile_id)
  finally have p: "p = x @ r" by simp
  have d: "Dir p = Clean x" by (simp add: Dir_def x_def)
  show ?thesis
  proof (cases "x = []")
    case True
    then have "Dir p = ''.''" using d by (simp add: Clean_def)
    then show ?thesis using assms by (cases p) (auto simp: walk_measure_def)
  next
    case False
    then have "dropWhile (\<lambda>c. c \<noteq> slash) (rev p) \<noteq> []" by (simp add: x_def)
    then have "hd (dropWhile (\<lambda>c. c \<noteq> slash) (rev p)) = slash"
      using hd_dropWhile[of "\<lambda>c. c \<noteq> slash" "rev p"] by simp
    then have "last x = slash"
      using False by (simp add: x_def last_rev)
    from Clean_length_slash[OF False this]
    have b: "length (Dir p) \<le> max 1 (length x - 1)" using d by simp
    have n: "Dir p \<noteq> []" using d Clean_not_Nil by simp
    have lp: "length x \<le> length p" using p by simp
    show ?thesis
    proof (cases "2 \<le> length p")
      case True
      then have "length (Dir p) < length p" using b lp False by (cases x) auto
      then show ?thesis using n True by (auto simp: walk_measure_def)
    next
      case F: False
      have "length p = length x + length r" by (subst p) simp
      moreover have "0 < length x" using False by simp
      ultimately have "length x = 1" "length r = 0" using F by arith+
      then have "r = []" "x = [last x]" by (simp, cases x, auto)
      then have "r = []" "x = [slash]" using \<open>last x = slash\<close> by simp_all
      then have "Dir p = p" using p d \<open>r = []\<close> by (simp add: Clean_slash)
      then show ?thesis using assms by simp
    qed
  qed
qed

text \<open>
  \<open>for { if mnt, ok := mountsByPath[path]; ok { return mnt, nil }; parent := filepath.Dir(path);
  if parent == path { return nil, errors.Wrap(ErrNotAMountpoint, path) }; path = parent }\<close>
\<close>

function find_upward :: "(string \<rightharpoonup> nat) \<Rightarrow> string \<Rightarrow> error + nat" where
  "find_upward m path =
     (case m path of
        Some mnt \<Rightarrow> Inr mnt
      | None \<Rightarrow>
          (let parent = Dir path in
           if parent = path then Inl (Wrap ErrNotAMountpoint path)
           else find_upward m parent))"
  by pat_completeness auto
termination
  by (relation "measure (\<lambda>(m, path). walk_measure path)") (auto simp: Dir_measure)

definition FindMount :: "env \<Rightarrow> string \<Rightarrow> state \<Rightarrow> (error + nat) \<times> state" where
  "FindMount os path s =
     (let s1 = access (Canonicalize path) s in
      case canonicalizePath os path of
        Inl err \<Rightarrow> (Inl err, s1)
      | Inr path' \<Rightarrow>
          (case loadMountInfo os s1 of
             (Some err, s2) \<Rightarrow> (Inl err, s2)
           | (None, s2) \<Rightarrow> (find_upward (mountsByPath s2) path', s2)))"

subsection \<open>Absolute paths by their elements\<close>

text \<open>
  For stating where a path lies: the clean absolute path with the given elements (the
  root for no element), and what an element of such a path is.
\<close>

definition abs_path :: "string list \<Rightarrow> string" where
  "abs_path elems = slash # strings_Join elems ''/''"

definition path_elem :: "string \<Rightarrow> bool" where
  "path_elem e \<longleftrightarrow> e \<noteq> [] \<and> slash \<notin> set e \<and> e \<noteq> ''.'' \<and> e \<noteq> ''..''"

subsection \<open>Sample inputs\<close>

text \<open>A mountinfo line whose mount point contains an escaped space.\<close>

definition example_line :: string where
  "example_line =
     ''36 35 98:0 /mnt1 /mnt'' @ backslash #
     ''0402 rw,noatime master:1 - ext3 /dev/root rw,errors=continue''"

text \<open>
  A system where every path is canonical and a directory, except the two UUID symlinks,
  which resolve to device nodes; the mountinfo file lists the same mount point twice.
\<close>

definition example_env :: env where
  "example_env =
     \<lparr>canonicalizePath =
        (\<lambda>p. if p = ''/dev/disk/by-uuid/1234'' then Inr ''/dev/sdb1''
             else if p = ''/dev/disk/by-uuid/abcd'' then Inr ''/dev/root''
             else Inr p),
      isDir = (\<lambda>p. True),
      isDevice = (\<lambda>d. d = ''/dev/root'' \<or> d = ''/dev/sdb1''),
      mountinfo = Inr [example_line, example_line],
      ReadDir = (\<lambda>d. Inr [(''abcd'', True)])\<rparr>"

section \<open>Properties\<close>

subsection \<open>unescapeString\<close>

declare unescape_loop.simps [simp del]

lemma unescape_loop_drop:
  "unescape_loop str i sb = sb @ unescape_loop (drop i str) 0 []"
proof (induction "length str - i" arbitrary: str i sb rule: less_induct)
  case less
  show ?case
  proof (cases "i < length str")
    case False
    then show ?thesis by (simp add: unescape_loop.simps[of str i] unescape_loop.simps[of "[]"])
  next
    case True
    define b where "b = str ! i"
    define P where "P = ParseInt_8_8 (take 3 (drop (i + 1) str))"
    have s1: "unescape_loop str (i + 1) sb' = sb' @ unescape_loop (drop (i + 1) str) 0 []" for sb'
      using less[of str "i + 1" sb'] True by simp
    have s4: "i + 3 < length str \<Longrightarrow> unescape_loop str (i + 3 + 1) sb' = sb' @ unescape_loop (drop (i + 3 + 1) str) 0 []" for sb'
      using less[of str "i + 3 + 1" sb'] True by simp
    have r1: "unescape_loop (drop i str) (0 + 1) sb' = sb' @ unescape_loop (drop (i + 1) str) 0 []" for sb'
      using less[of "drop i str" "0 + 1" sb'] True by simp
    have r4: "i + 3 < length str \<Longrightarrow> unescape_loop (drop i str) (0 + 3 + 1) sb' = sb' @ unescape_loop (drop (i + 3 + 1) str) 0 []" for sb'
      using less[of "drop i str" "0 + 3 + 1" sb'] True by (simp add: add.commute)
    have L: "unescape_loop str i sb =
       (if b = backslash \<and> i + 3 < length str then
           (case P of
              Inr parsed \<Rightarrow> unescape_loop str (i + 3 + 1) (sb @ [char_of parsed])
            | Inl err \<Rightarrow> unescape_loop str (i + 1) (sb @ [b]))
         else unescape_loop str (i + 1) (sb @ [b]))"
      unfolding b_def P_def using True
      by (subst unescape_loop.simps) (simp only: if_True Let_def)
    have R: "unescape_loop (drop i str) 0 [] =
       (if b = backslash \<and> i + 3 < length str then
           (case P of
              Inr parsed \<Rightarrow> unescape_loop (drop i str) (0 + 3 + 1) ([] @ [char_of parsed])
            | Inl err \<Rightarrow> unescape_loop (drop i str) (0 + 1) ([] @ [b]))
         else unescape_loop (drop i str) (0 + 1) ([] @ [b]))"
    proof -
      have l: "0 < length (drop i str)" using True by simp
      have t: "take 3 (drop (0 + 1) (drop i str)) = take 3 (drop (i + 1) str)" by simp
      have n0: "drop i str ! 0 = str ! i" using True by simp
      have c: "(0 + 3 < length (drop i str)) = (i + 3 < length str)" by auto
      show ?thesis unfolding b_def P_def
        by (subst unescape_loop.simps) (simp only: l if_True Let_def t n0 c)
    qed
    show ?thesis
    proof (cases "b = backslash \<and> i + 3 < length str")
      case False
      then show ?thesis unfolding L R by (simp only: if_False s1 r1) simp
    next
      case c: True
      then have i3: "i + 3 < length str" by simp
      show ?thesis
      proof (cases P)
        case (Inl e)
        then show ?thesis unfolding L R using c by (simp only: if_True sum.case s1 r1) simp
      next
        case (Inr v)
        then show ?thesis unfolding L R using c
          by (simp only: if_True sum.case s4[OF i3] r4[OF i3]) simp
      qed
    qed
  qed
qed

lemma unescapeString_Nil: "unescapeString [] = []"
  by (simp add: unescapeString_def unescape_loop.simps)

lemma unescapeString_Cons:
  "unescapeString (b # rest) =
     (if b = backslash \<and> 3 \<le> length rest then
        (case ParseInt_8_8 (take 3 rest) of
           Inr parsed \<Rightarrow> char_of parsed # unescapeString (drop 3 rest)
         | Inl err \<Rightarrow> b # unescapeString rest)
      else b # unescapeString rest)"
proof -
  have a: "unescape_loop (b # rest) (0 + 1) sb = sb @ unescapeString rest" for sb
    using unescape_loop_drop[of "b # rest" "0 + 1" sb] by (simp add: unescapeString_def)
  have c: "unescape_loop (b # rest) (0 + 3 + 1) sb = sb @ unescapeString (drop 3 rest)" for sb
    using unescape_loop_drop[of "b # rest" "0 + 3 + 1" sb] by (simp add: unescapeString_def)
  have l: "0 < length (b # rest)" by simp
  have n: "(b # rest) ! 0 = b" by simp
  have t: "take 3 (drop (0 + 1) (b # rest)) = take 3 rest" by simp
  have k: "(0 + 3 < length (b # rest)) = (3 \<le> length rest)" by auto
  show ?thesis
    unfolding unescapeString_def
    apply (subst unescape_loop.simps)
    apply (simp only: l if_True Let_def n t k a c unescapeString_def[symmetric])
    apply (simp split: sum.splits)
    done
qed


lemma ParseUint_loop_3:
  assumes "octal_digit d1 = Some a" "octal_digit d2 = Some b" "octal_digit d3 = Some c"
  shows "ParseUint_loop 0 [d1, d2, d3] =
           (if 64 * a + 8 * b + c > 255 then Inl ErrRange else Inr (64 * a + 8 * b + c))"
proof -
  have r: "a \<le> 7" "b \<le> 7" "c \<le> 7"
    using assms by (auto simp: octal_digit_def Let_def split: if_splits)
  then have "a * 8 + b \<le> 255" by arith
  then show ?thesis
    using assms by (simp add: Let_def algebra_simps)
qed

lemma octal_digit_not_sign:
  "octal_digit d = Some a \<Longrightarrow> d \<noteq> CHR ''+'' \<and> d \<noteq> CHR ''-''"
  by (auto simp: octal_digit_def Let_def split: if_splits)

lemma ParseInt_octal3:
  assumes "octal_digit d1 = Some a" "octal_digit d2 = Some b" "octal_digit d3 = Some c"
  shows "ParseInt_8_8 [d1, d2, d3] =
           (if 64 * a + 8 * b + c \<le> 127 then Inr (int (64 * a + 8 * b + c)) else Inl ErrRange)"
proof -
  have s: "d1 \<noteq> CHR ''+''" "d1 \<noteq> CHR ''-''"
    using octal_digit_not_sign[OF assms(1)] by simp_all
  have "ParseInt_8_8 [d1, d2, d3] =
     (case ParseUint_loop 0 [d1, d2, d3] of Inl e \<Rightarrow> Inl e
      | Inr un \<Rightarrow> if un \<ge> 128 then Inl ErrRange else Inr (int un))"
    using s by (simp add: ParseInt_8_8_def ParseUint_8_8_def Let_def del: ParseUint_loop.simps split: sum.splits)
  also have "\<dots> = (if 64 * a + 8 * b + c \<le> 127 then Inr (int (64 * a + 8 * b + c)) else Inl ErrRange)"
    unfolding ParseUint_loop_3[OF assms] by simp
  finally show ?thesis .
qed


lemma unescape_escape_byte:
  "unescapeString (escape_byte c @ rest) = c # unescapeString rest"
proof (cases "c = CHR '' '' \<or> c = CHR 0x09 \<or> c = CHR 0x0A \<or> c = backslash")
  case False
  then show ?thesis by (simp add: escape_byte_def unescapeString_Cons)
next
  case True
  have o: "octal_digit (CHR ''0'') = Some 0" "octal_digit (CHR ''1'') = Some 1"
    "octal_digit (CHR ''2'') = Some 2" "octal_digit (CHR ''3'') = Some 3"
    "octal_digit (CHR ''4'') = Some 4"
    by (simp_all add: octal_digit_def)
  have e: "escape_byte (CHR '' '') = [backslash, CHR ''0'', CHR ''4'', CHR ''0'']"
    "escape_byte (CHR 0x09) = [backslash, CHR ''0'', CHR ''1'', CHR ''1'']"
    "escape_byte (CHR 0x0A) = [backslash, CHR ''0'', CHR ''1'', CHR ''2'']"
    "escape_byte backslash = [backslash, CHR ''1'', CHR ''3'', CHR ''4'']"
    by code_simp+
  have p: "ParseInt_8_8 [CHR ''0'', CHR ''4'', CHR ''0''] = Inr 32"
    "ParseInt_8_8 [CHR ''0'', CHR ''1'', CHR ''1''] = Inr 9"
    "ParseInt_8_8 [CHR ''0'', CHR ''1'', CHR ''2''] = Inr 10"
    "ParseInt_8_8 [CHR ''1'', CHR ''3'', CHR ''4''] = Inr 92"
    by (simp_all add: ParseInt_octal3 o)
  from True show ?thesis
    by (elim disjE) (simp_all add: e p unescapeString_Cons char_of_def)
qed

lemma unescape_escape: "unescapeString (escape s @ rest) = s @ unescapeString rest"
  by (induction s) (simp_all add: escape_def unescape_escape_byte)

lemma octal_digit_le7: "octal_digit d = Some a \<Longrightarrow> a \<le> 7"
  by (auto simp: octal_digit_def Let_def split: if_splits)

lemma ParseUint_loop_reject2:
  "octal_digit c2 = None \<or> octal_digit c3 = None \<Longrightarrow> \<exists>e. ParseUint_loop 0 [c2, c3] = Inl e"
  by (cases "octal_digit c2"; cases "octal_digit c3") (auto simp: Let_def dest: octal_digit_le7)

lemma ParseUint_loop_reject3:
  "octal_digit c1 = None \<or> octal_digit c2 = None \<or> octal_digit c3 = None \<Longrightarrow>
   \<exists>e. ParseUint_loop 0 [c1, c2, c3] = Inl e"
  by (cases "octal_digit c1"; cases "octal_digit c2"; cases "octal_digit c3")
     (auto simp: Let_def dest: octal_digit_le7)

lemma ParseInt_reject:
  assumes v: "\<forall>x y z. octal_digit c1 = Some x \<and> octal_digit c2 = Some y \<and> octal_digit c3 = Some z
                \<longrightarrow> 127 < 64 * x + 8 * y + z"
    and s: "\<not> ((c1 = CHR ''+'' \<or> c1 = CHR ''-'') \<and> octal_digit c2 \<noteq> None \<and> octal_digit c3 \<noteq> None)"
  shows "\<exists>e. ParseInt_8_8 [c1, c2, c3] = Inl e"
proof (cases "c1 = CHR ''+'' \<or> c1 = CHR ''-''")
  case True
  then have "octal_digit c2 = None \<or> octal_digit c3 = None" using s by blast
  from ParseUint_loop_reject2[OF this] obtain e where "ParseUint_loop 0 [c2, c3] = Inl e" ..
  then show ?thesis using True
    by (auto simp: ParseInt_8_8_def ParseUint_8_8_def simp del: ParseUint_loop.simps)
next
  case False
  show ?thesis
  proof (cases "octal_digit c1 = None \<or> octal_digit c2 = None \<or> octal_digit c3 = None")
    case True
    from ParseUint_loop_reject3[OF this] obtain e where "ParseUint_loop 0 [c1, c2, c3] = Inl e" ..
    then show ?thesis using False
      by (auto simp: ParseInt_8_8_def ParseUint_8_8_def simp del: ParseUint_loop.simps)
  next
    case F: False
    then obtain x y z where o: "octal_digit c1 = Some x" "octal_digit c2 = Some y"
      "octal_digit c3 = Some z" by auto
    then have "127 < 64 * x + 8 * y + z" using v by blast
    then show ?thesis using ParseInt_octal3[OF o] by simp
  qed
qed

text \<open>
  C1 (as amended).  \<open>unescapeString\<close> scans every byte.  A byte other than a backslash
  is copied.  At a backslash followed by three octal digits whose value is at most 127,
  the decoded byte is written and the three digits are skipped.  At a backslash followed
  by fewer than three characters, or by three characters that are neither three octal
  digits of a value up to 127 nor a sign (\<open>+\<close> or \<open>-\<close>) followed by two octal digits,
  the backslash is copied and the scan goes on with the next byte.  Nothing is stated
  for a backslash followed by a sign and two octal digits.  Unescaping the kernel's
  escaping of any byte string gives the byte string back.
\<close>

theorem unescapeString_scan_roundtrip:
  "unescapeString [] = [] \<and>
   (b \<noteq> backslash \<longrightarrow> unescapeString (b # rest) = b # unescapeString rest) \<and>
   (octal_digit d1 = Some x \<and> octal_digit d2 = Some y \<and> octal_digit d3 = Some z \<and>
    64 * x + 8 * y + z \<le> 127 \<longrightarrow>
      unescapeString (backslash # d1 # d2 # d3 # rest1) =
        char_of (int (64 * x + 8 * y + z)) # unescapeString rest1) \<and>
   (length rest2 < 3 \<longrightarrow>
      unescapeString (backslash # rest2) = backslash # unescapeString rest2) \<and>
   ((\<forall>x y z. octal_digit c1 = Some x \<and> octal_digit c2 = Some y \<and> octal_digit c3 = Some z
        \<longrightarrow> 127 < 64 * x + 8 * y + z) \<and>
    \<not> ((c1 = CHR ''+'' \<or> c1 = CHR ''-'') \<and> octal_digit c2 \<noteq> None \<and> octal_digit c3 \<noteq> None)
    \<longrightarrow>
      unescapeString (backslash # c1 # c2 # c3 # rest3) =
        backslash # unescapeString (c1 # c2 # c3 # rest3)) \<and>
   unescapeString (escape s) = s"
proof -
  have a: "unescapeString [] = []" by (rule unescapeString_Nil)
  have b: "b \<noteq> backslash \<longrightarrow> unescapeString (b # rest) = b # unescapeString rest"
    by (simp add: unescapeString_Cons)
  have c: "octal_digit d1 = Some x \<and> octal_digit d2 = Some y \<and> octal_digit d3 = Some z \<and>
    64 * x + 8 * y + z \<le> 127 \<longrightarrow>
      unescapeString (backslash # d1 # d2 # d3 # rest1) =
        char_of (int (64 * x + 8 * y + z)) # unescapeString rest1"
  proof (intro impI, elim conjE)
    assume o: "octal_digit d1 = Some x" "octal_digit d2 = Some y" "octal_digit d3 = Some z"
      and v: "64 * x + 8 * y + z \<le> 127"
    have p: "ParseInt_8_8 [d1, d2, d3] = Inr (int (64 * x + 8 * y + z))"
      using ParseInt_octal3[OF o] v by simp
    show "unescapeString (backslash # d1 # d2 # d3 # rest1) =
        char_of (int (64 * x + 8 * y + z)) # unescapeString rest1"
      by (simp add: unescapeString_Cons p)
  qed
  have d: "length rest2 < 3 \<longrightarrow>
      unescapeString (backslash # rest2) = backslash # unescapeString rest2"
    by (simp add: unescapeString_Cons)
  have e: "(\<forall>x y z. octal_digit c1 = Some x \<and> octal_digit c2 = Some y \<and> octal_digit c3 = Some z
        \<longrightarrow> 127 < 64 * x + 8 * y + z) \<and>
    \<not> ((c1 = CHR ''+'' \<or> c1 = CHR ''-'') \<and> octal_digit c2 \<noteq> None \<and> octal_digit c3 \<noteq> None)
    \<longrightarrow>
      unescapeString (backslash # c1 # c2 # c3 # rest3) =
        backslash # unescapeString (c1 # c2 # c3 # rest3)"
  proof (intro impI, elim conjE)
    assume v: "\<forall>x y z. octal_digit c1 = Some x \<and> octal_digit c2 = Some y \<and> octal_digit c3 = Some z
        \<longrightarrow> 127 < 64 * x + 8 * y + z"
      and s: "\<not> ((c1 = CHR ''+'' \<or> c1 = CHR ''-'') \<and> octal_digit c2 \<noteq> None \<and> octal_digit c3 \<noteq> None)"
    from ParseInt_reject[OF v s] obtain e where "ParseInt_8_8 [c1, c2, c3] = Inl e" ..
    then show "unescapeString (backslash # c1 # c2 # c3 # rest3) =
        backslash # unescapeString (c1 # c2 # c3 # rest3)"
      by (subst unescapeString_Cons) simp
  qed
  have f: "unescapeString (escape s) = s"
    using unescape_escape[of s "[]"] by (simp add: unescapeString_Nil)
  from a b c d e f show ?thesis by (intro conjI)
qed

theorem unescapeString_scan_roundtrip_witness:
  "CHR ''a'' \<noteq> backslash \<and>
   unescapeString (CHR ''a'' # ''b'') = CHR ''a'' # unescapeString ''b'' \<and>
   octal_digit (CHR ''1'') = Some 1 \<and> octal_digit (CHR ''3'') = Some 3 \<and>
   octal_digit (CHR ''4'') = Some 4 \<and> (64 * 1 + 8 * 3 + 4 :: nat) \<le> 127 \<and>
   unescapeString (backslash # ''134x'') = backslash # unescapeString ''x'' \<and>
   length ''04'' < 3 \<and>
   unescapeString (backslash # ''04'') = backslash # unescapeString ''04'' \<and>
   octal_digit (CHR ''x'') = None \<and>
   unescapeString (backslash # ''x41y'') = backslash # unescapeString ''x41y'' \<and>
   unescapeString (escape [CHR ''a'', CHR '' '', backslash, CHR 0xFF]) =
     [CHR ''a'', CHR '' '', backslash, CHR 0xFF]"
proof -
  have o: "octal_digit (CHR ''1'') = Some 1" "octal_digit (CHR ''3'') = Some 3"
    "octal_digit (CHR ''4'') = Some 4" "octal_digit (CHR ''x'') = None"
    by (simp_all add: octal_digit_def)
  have k: "char_of (92 :: int) = backslash" by code_simp
  show ?thesis
    using unescapeString_scan_roundtrip
      [where b = "CHR ''a''" and rest = "''b''" and ?rest1.0 = "''x''"
         and ?rest2.0 = "''04''" and ?d1.0 = "CHR ''1''" and ?d2.0 = "CHR ''3''"
         and ?d3.0 = "CHR ''4''" and x = 1 and y = 3 and z = 4
         and ?c1.0 = "CHR ''x''" and ?c2.0 = "CHR ''4''" and ?c3.0 = "CHR ''1''"
         and ?rest3.0 = "''y''"
         and s = "[CHR ''a'', CHR '' '', backslash, CHR 0xFF]"]
    by (simp add: o k)
qed

text \<open>
  The claim as written promises a decoded byte for every three-digit octal value up to
  255, and a verbatim backslash wherever the three characters are not such a value.
  The four bytes \<open>\377\<close> are returned unchanged, not as the byte 255; the four bytes
  \<open>\-01\<close>, which hold no three-digit octal value, are returned as the single byte 255.
\<close>

theorem unescapeString_377_counterexample:
  "unescapeString [backslash, CHR ''3'', CHR ''7'', CHR ''7'']
     = [backslash, CHR ''3'', CHR ''7'', CHR ''7''] \<and>
   unescapeString [backslash, CHR ''3'', CHR ''7'', CHR ''7''] \<noteq> [CHR 0xFF] \<and>
   unescapeString [backslash, CHR ''-'', CHR ''0'', CHR ''1''] = [CHR 0xFF] \<and>
   unescapeString [backslash, CHR ''-'', CHR ''0'', CHR ''1'']
     \<noteq> [backslash, CHR ''-'', CHR ''0'', CHR ''1'']"
proof -
  have o: "octal_digit (CHR ''3'') = Some 3" "octal_digit (CHR ''7'') = Some 7"
    "octal_digit (CHR ''0'') = Some 0" "octal_digit (CHR ''1'') = Some 1"
    by (simp_all add: octal_digit_def)
  have p: "ParseInt_8_8 [CHR ''3'', CHR ''7'', CHR ''7''] = Inl ErrRange"
    by (simp add: ParseInt_octal3 o)
  have q: "ParseInt_8_8 [CHR ''-'', CHR ''0'', CHR ''1''] = Inr (- 1)"
    by (simp add: ParseInt_8_8_def ParseUint_8_8_def o)
  have k: "char_of (- 1 :: int) = CHR 0xFF" by code_simp
  show ?thesis
    by (simp add: unescapeString_Cons unescapeString_Nil p q k)
qed

subsection \<open>parseMountInfoLine\<close>

declare find_separator.simps [simp del]

lemma range_split:
  fixes P :: "nat \<Rightarrow> bool"
  shows "(\<forall>i. n0 \<le> i \<and> i < N \<longrightarrow> P i) \<longleftrightarrow>
         ((n0 < N \<longrightarrow> P n0) \<and> (\<forall>i. Suc n0 \<le> i \<and> i < N \<longrightarrow> P i))"
proof -
  have "n0 \<le> i \<longleftrightarrow> i = n0 \<or> Suc n0 \<le> i" for i by arith
  then show ?thesis by (simp only:) blast
qed

lemma find_separator_step:
  "find_separator flds n =
     (if flds ! n = ''-'' then Some n
      else if Suc n < length flds then find_separator flds (Suc n) else None)"
  by (subst find_separator.simps) auto

lemma find_separator_None:
  "n0 < length flds \<Longrightarrow>
   find_separator flds n0 = None \<longleftrightarrow>
     (\<forall>i. n0 \<le> i \<and> i < length flds \<longrightarrow> flds ! i \<noteq> ''-'')"
proof (induction "length flds - n0" arbitrary: n0)
  case 0
  then show ?case by simp
next
  case (Suc k)
  show ?case
  proof (cases "Suc n0 < length flds")
    case True
    then have ih: "find_separator flds (Suc n0) = None \<longleftrightarrow>
        (\<forall>i. Suc n0 \<le> i \<and> i < length flds \<longrightarrow> flds ! i \<noteq> ''-'')"
      using Suc.hyps(1)[of "Suc n0"] Suc.hyps(2) by simp
    show ?thesis
      unfolding range_split[of n0] find_separator_step[of flds n0]
      using True Suc.prems ih by simp
  next
    case False
    then have e: "\<And>i. \<not> (Suc n0 \<le> i \<and> i < length flds)" by simp
    show ?thesis
      unfolding range_split[of n0] find_separator_step[of flds n0]
      using False Suc.prems e by auto
  qed
qed

lemma find_separator_Some:
  "n0 < length flds \<Longrightarrow> find_separator flds n0 = Some n \<Longrightarrow>
     n0 \<le> n \<and> n < length flds \<and> flds ! n = ''-'' \<and>
      (\<forall>i. n0 \<le> i \<and> i < n \<longrightarrow> flds ! i \<noteq> ''-'')"
proof (induction "length flds - n0" arbitrary: n0)
  case 0
  then show ?case by simp
next
  case (Suc k)
  show ?case
  proof (cases "flds ! n0 = ''-''")
    case True
    then have "n = n0" using Suc.prems(2) by (simp add: find_separator_step[of flds n0])
    then show ?thesis using True Suc.prems(1) by auto
  next
    case False
    then have lt: "Suc n0 < length flds" and r: "find_separator flds (Suc n0) = Some n"
      using Suc.prems(2) by (simp_all add: find_separator_step[of flds n0] split: if_splits)
    have ih: "Suc n0 \<le> n \<and> n < length flds \<and> flds ! n = ''-'' \<and>
      (\<forall>i. Suc n0 \<le> i \<and> i < n \<longrightarrow> flds ! i \<noteq> ''-'')"
      using Suc.hyps(1)[of "Suc n0"] Suc.hyps(2) lt r by simp
    then show ?thesis
      unfolding range_split[of n0 n] using False by simp
  qed
qed

lemma find_separator_first:
  assumes "n0 \<le> n" "n < length flds" "flds ! n = ''-''"
    "\<forall>i. n0 \<le> i \<and> i < n \<longrightarrow> flds ! i \<noteq> ''-''"
  shows "find_separator flds n0 = Some n"
proof (cases "find_separator flds n0")
  case None
  then show ?thesis using find_separator_None[of n0 flds] assms by auto
next
  case (Some m)
  have n0: "n0 < length flds" using assms by simp
  from find_separator_Some[OF n0 Some]
  have m: "n0 \<le> m" "m < length flds" "flds ! m = ''-''"
    "\<forall>i. n0 \<le> i \<and> i < m \<longrightarrow> flds ! i \<noteq> ''-''" by simp_all
  have "\<not> m < n" using assms(4) m(1,3) by blast
  moreover have "\<not> n < m" using m(4) assms(1,3) by blast
  ultimately show ?thesis using Some by simp
qed


text \<open>
  C2.  \<open>parseMountInfoLine\<close> splits the line on single spaces.  It returns nil exactly
  when there are fewer than 10 fields, or no field from index 6 on is \<open>-\<close>, or fewer
  than 3 fields follow the first such field.  Otherwise, with \<open>n\<close> the index of that
  first separator, it returns a Mount whose path, filesystem type and device are the
  unescaped fields 4, \<open>n + 1\<close> and \<open>n + 2\<close>.
\<close>

theorem parseMountInfoLine_spec:
  "(parseMountInfoLine line = None \<longleftrightarrow>
      length (Split line (CHR '' '')) < 10 \<or>
      (\<forall>i. 6 \<le> i \<and> i < length (Split line (CHR '' '')) \<longrightarrow>
           Split line (CHR '' '') ! i \<noteq> ''-'') \<or>
      (\<exists>k. 6 \<le> k \<and> k < length (Split line (CHR '' '')) \<and>
           Split line (CHR '' '') ! k = ''-'' \<and>
           (\<forall>i. 6 \<le> i \<and> i < k \<longrightarrow> Split line (CHR '' '') ! i \<noteq> ''-'') \<and>
           length (Split line (CHR '' '')) - (k + 1) < 3)) \<and>
   (10 \<le> length (Split line (CHR '' '')) \<and>
    6 \<le> n \<and> n < length (Split line (CHR '' '')) \<and>
    Split line (CHR '' '') ! n = ''-'' \<and>
    (\<forall>i. 6 \<le> i \<and> i < n \<longrightarrow> Split line (CHR '' '') ! i \<noteq> ''-'') \<and>
    3 \<le> length (Split line (CHR '' '')) - (n + 1) \<longrightarrow>
    parseMountInfoLine line =
      Some \<lparr>Path = unescapeString (Split line (CHR '' '') ! 4),
            FilesystemType = unescapeString (Split line (CHR '' '') ! (n + 1)),
            Device = unescapeString (Split line (CHR '' '') ! (n + 2))\<rparr>)"
proof -
  define flds where "flds = Split line (CHR '' '')"
  have A: "parseMountInfoLine line = None \<longleftrightarrow>
      length flds < 10 \<or>
      (\<forall>i. 6 \<le> i \<and> i < length flds \<longrightarrow> flds ! i \<noteq> ''-'') \<or>
      (\<exists>k. 6 \<le> k \<and> k < length flds \<and> flds ! k = ''-'' \<and>
           (\<forall>i. 6 \<le> i \<and> i < k \<longrightarrow> flds ! i \<noteq> ''-'') \<and>
           length flds - (k + 1) < 3)"
  proof (cases "length flds < 10")
    case True
    then show ?thesis by (simp add: parseMountInfoLine_def flds_def[symmetric])
  next
    case False
    then have l6: "6 < length flds" by simp
    show ?thesis
    proof (cases "find_separator flds 6")
      case None
      then show ?thesis
        using find_separator_None[OF l6] False
        by (simp add: parseMountInfoLine_def flds_def[symmetric])
    next
      case (Some m)
      note m = find_separator_Some[OF l6 Some]
      have u: "k = m" if "6 \<le> k" "k < length flds" "flds ! k = ''-''"
        "\<forall>i. 6 \<le> i \<and> i < k \<longrightarrow> flds ! i \<noteq> ''-''" for k
        using find_separator_first[OF that] Some by simp
      have nn: "\<not> (\<forall>i. 6 \<le> i \<and> i < length flds \<longrightarrow> flds ! i \<noteq> ''-'')"
        using m by blast
      have "(\<exists>k. 6 \<le> k \<and> k < length flds \<and> flds ! k = ''-'' \<and>
           (\<forall>i. 6 \<le> i \<and> i < k \<longrightarrow> flds ! i \<noteq> ''-'') \<and>
           length flds - (k + 1) < 3) \<longleftrightarrow> length flds - (m + 1) < 3"
        using m u by blast
      moreover have "parseMountInfoLine line = None \<longleftrightarrow> length flds \<le> m + 3"
        using Some False by (simp add: parseMountInfoLine_def flds_def[symmetric])
      moreover have "length flds - (m + 1) < 3 \<longleftrightarrow> length flds \<le> m + 3" by arith
      ultimately show ?thesis using False nn by blast
    qed
  qed
  have B: "10 \<le> length flds \<and> 6 \<le> n \<and> n < length flds \<and> flds ! n = ''-'' \<and>
    (\<forall>i. 6 \<le> i \<and> i < n \<longrightarrow> flds ! i \<noteq> ''-'') \<and> 3 \<le> length flds - (n + 1) \<longrightarrow>
    parseMountInfoLine line =
      Some \<lparr>Path = unescapeString (flds ! 4),
            FilesystemType = unescapeString (flds ! (n + 1)),
            Device = unescapeString (flds ! (n + 2))\<rparr>"
  proof (intro impI, elim conjE)
    assume h: "10 \<le> length flds" "6 \<le> n" "n < length flds" "flds ! n = ''-''"
      "\<forall>i. 6 \<le> i \<and> i < n \<longrightarrow> flds ! i \<noteq> ''-''" "3 \<le> length flds - (n + 1)"
    have "find_separator flds 6 = Some n"
      using find_separator_first[OF h(2,3,4,5)] .
    moreover have "\<not> length flds \<le> n + 3" using h(6) by arith
    ultimately show "parseMountInfoLine line =
      Some \<lparr>Path = unescapeString (flds ! 4),
            FilesystemType = unescapeString (flds ! (n + 1)),
            Device = unescapeString (flds ! (n + 2))\<rparr>"
      using h(1) by (simp add: parseMountInfoLine_def flds_def[symmetric])
  qed
  from A B show ?thesis unfolding flds_def by blast
qed

lemma Split_example:
  "Split example_line (CHR '' '')
   = [''36'', ''35'', ''98:0'', ''/mnt1'', ''/mnt'' @ backslash # ''0402'', ''rw,noatime'',
      ''master:1'', ''-'', ''ext3'', ''/dev/root'', ''rw,errors=continue'']"
  by (simp add: example_line_def Split.simps)

theorem parseMountInfoLine_spec_witness:
  "10 \<le> length (Split example_line (CHR '' '')) \<and>
   Split example_line (CHR '' '') ! 7 = ''-'' \<and>
   Split example_line (CHR '' '') ! 6 \<noteq> ''-'' \<and>
   parseMountInfoLine example_line =
      Some \<lparr>Path = ''/mnt 2'', FilesystemType = ''ext3'', Device = ''/dev/root''\<rparr> \<and>
   length (Split ''1 2 3 - ext3 /dev/root rw'' (CHR '' '')) < 10 \<and>
   parseMountInfoLine ''1 2 3 - ext3 /dev/root rw'' = None"
proof -
  let ?f = "Split example_line (CHR '' '')"
  have q: "\<forall>i. 6 \<le> i \<and> i < 7 \<longrightarrow> ?f ! i \<noteq> ''-''"
  proof (intro allI impI)
    fix i :: nat assume "6 \<le> i \<and> i < 7"
    then have "i = 6" by arith
    then show "?f ! i \<noteq> ''-''" by (simp add: Split_example)
  qed
  have h: "10 \<le> length ?f \<and> 6 \<le> (7::nat) \<and> 7 < length ?f \<and> ?f ! 7 = ''-'' \<and>
     (\<forall>i. 6 \<le> i \<and> i < 7 \<longrightarrow> ?f ! i \<noteq> ''-'') \<and> 3 \<le> length ?f - (7 + 1)"
    using q by (simp add: Split_example)
  have p: "parseMountInfoLine example_line =
      Some \<lparr>Path = unescapeString (?f ! 4),
            FilesystemType = unescapeString (?f ! (7 + 1)),
            Device = unescapeString (?f ! (7 + 2))\<rparr>"
    by (rule parseMountInfoLine_spec[of example_line 7, THEN conjunct2, THEN mp, OF h])
  have s: "length (Split ''1 2 3 - ext3 /dev/root rw'' (CHR '' '')) < 10"
    by (simp add: Split.simps)
  have n: "parseMountInfoLine ''1 2 3 - ext3 /dev/root rw'' = None"
    by (rule parseMountInfoLine_spec[of "''1 2 3 - ext3 /dev/root rw''" 0, THEN conjunct1,
          THEN iffD2, OF disjI1, OF s])
  show ?thesis
    using p s n
    by (simp add: Split_example unescapeString_Cons unescapeString_Nil ParseInt_8_8_def
        ParseUint_8_8_def octal_digit_def char_of_def)
qed

subsection \<open>loadMountInfo\<close>


lemma scan_line_mountsByPath:
  "mountsByPath (scan_line os l s) =
     (case parseMountInfoLine l of
        None \<Rightarrow> mountsByPath s
      | Some m \<Rightarrow>
          (case canonicalizePath os (Path m) of
             Inl e \<Rightarrow> mountsByPath s
           | Inr p \<Rightarrow>
               if isDir os p then (mountsByPath s)(p \<mapsto> length (heap s)) else mountsByPath s))"
  by (simp add: scan_line_def access_def Let_def split: option.splits sum.splits)

lemma scan_line_mountsByDevice:
  "mountsByDevice (scan_line os l s) =
     (case parseMountInfoLine l of
        None \<Rightarrow> mountsByDevice s
      | Some m \<Rightarrow>
          (case canonicalizePath os (Path m) of
             Inl e \<Rightarrow> mountsByDevice s
           | Inr p \<Rightarrow>
               if isDir os p then
                 (case canonicalizePath os (Device m) of
                    Inr d \<Rightarrow>
                      if isDevice os d then
                        (mountsByDevice s)
                          (d \<mapsto> (case mountsByDevice s d of None \<Rightarrow> [] | Some L \<Rightarrow> L) @ [length (heap s)])
                      else mountsByDevice s
                  | Inl e \<Rightarrow> mountsByDevice s)
               else mountsByDevice s))"
  by (simp add: scan_line_def access_def Let_def split: option.splits sum.splits)

lemma scan_line_heap:
  "heap (scan_line os l s) =
     (case parseMountInfoLine l of
        None \<Rightarrow> heap s
      | Some m \<Rightarrow>
          heap s @
          [case canonicalizePath os (Path m) of
             Inl e \<Rightarrow> m
           | Inr p \<Rightarrow>
               if isDir os p then
                 m\<lparr>Path := p,
                   Device := (case canonicalizePath os (Device m) of
                                Inr d \<Rightarrow> if isDevice os d then d else []
                              | Inl e \<Rightarrow> [])\<rparr>
               else m\<lparr>Path := p\<rparr>])"
  by (simp add: scan_line_def access_def Let_def split: option.splits sum.splits)


lemma scan_lines_append:
  "scan_lines os (xs @ ys) s = scan_lines os ys (scan_lines os xs s)"
  by (induction xs arbitrary: s) simp_all

lemma scan_lines_heap_length:
  "length (heap (scan_lines os ls s)) =
     length (heap s) + length (filter (\<lambda>l. parseMountInfoLine l \<noteq> None) ls)"
proof (induction ls arbitrary: s)
  case Nil
  then show ?case by simp
next
  case (Cons l ls)
  have "length (heap (scan_line os l s)) =
          length (heap s) + (if parseMountInfoLine l \<noteq> None then 1 else 0)"
    by (simp add: scan_line_heap split: option.splits)
  then show ?case using Cons.IH[of "scan_line os l s"] by simp
qed

lemma scan_line_heap_old:
  "i < length (heap s) \<Longrightarrow> heap (scan_line os l s) ! i = heap s ! i"
  by (simp add: scan_line_heap nth_append split: option.splits)

lemma scan_lines_heap_old:
  "i < length (heap s) \<Longrightarrow> heap (scan_lines os ls s) ! i = heap s ! i"
proof (induction ls arbitrary: s)
  case Nil
  then show ?case by simp
next
  case (Cons l ls)
  have "length (heap s) \<le> length (heap (scan_line os l s))"
    by (simp add: scan_line_heap split: option.splits)
  then have "i < length (heap (scan_line os l s))" using Cons.prems by simp
  then show ?case using Cons.IH[of "scan_line os l s"] scan_line_heap_old[OF Cons.prems] by simp
qed

lemma scan_line_path_fresh:
  "mountsByPath (scan_line os l s) q = Some a \<Longrightarrow>
   mountsByPath s q = Some a \<or> a = length (heap s)"
  by (auto simp: scan_line_mountsByPath split: option.splits sum.splits if_splits)

lemma scan_lines_path_fresh:
  "mountsByPath (scan_lines os ls s) q = Some a \<Longrightarrow>
   mountsByPath s q = Some a \<or> length (heap s) \<le> a"
proof (induction ls arbitrary: s)
  case Nil
  then show ?case by simp
next
  case (Cons l ls)
  have le: "length (heap s) \<le> length (heap (scan_line os l s))"
    by (simp add: scan_line_heap split: option.splits)
  from Cons.IH[of "scan_line os l s"] Cons.prems
  have "mountsByPath (scan_line os l s) q = Some a \<or> length (heap (scan_line os l s)) \<le> a"
    by simp
  then show ?case using scan_line_path_fresh[of os l s q a] le by auto
qed

lemma scan_lines_path_unchanged:
  "\<forall>l\<in>set ls. \<forall>m. parseMountInfoLine l = Some m \<longrightarrow> canonicalizePath os (Path m) \<noteq> Inr p \<Longrightarrow>
   mountsByPath (scan_lines os ls s) p = mountsByPath s p"
proof (induction ls arbitrary: s)
  case Nil
  then show ?case by simp
next
  case (Cons l ls)
  have "mountsByPath (scan_line os l s) p = mountsByPath s p"
    using Cons.prems by (auto simp: scan_line_mountsByPath split: option.splits sum.splits)
  then show ?case using Cons.IH[of "scan_line os l s"] Cons.prems by simp
qed

lemma scan_line_path_valid:
  "parseMountInfoLine l = Some m \<Longrightarrow> canonicalizePath os (Path m) = Inr p \<Longrightarrow> isDir os p \<Longrightarrow>
   mountsByPath (scan_line os l s) p = Some (length (heap s))"
  by (simp add: scan_line_mountsByPath)

lemma scan_line_heap_valid:
  "parseMountInfoLine l = Some m \<Longrightarrow> canonicalizePath os (Path m) = Inr p \<Longrightarrow> isDir os p \<Longrightarrow>
   heap (scan_line os l s) ! length (heap s) =
     m\<lparr>Path := p,
       Device := (case canonicalizePath os (Device m) of
                    Inr d \<Rightarrow> if isDevice os d then d else []
                  | Inl e \<Rightarrow> [])\<rparr>"
  by (simp add: scan_line_heap)

lemma scan_line_heap_grows:
  "parseMountInfoLine l = Some m \<Longrightarrow> length (heap (scan_line os l s)) = Suc (length (heap s))"
  by (simp add: scan_line_heap)

lemma scan_line_device_prefix:
  "\<exists>post. device_list (scan_line os l s) d = device_list s d @ post"
  by (auto simp: device_list_def scan_line_mountsByDevice split: option.splits sum.splits)

lemma scan_lines_device_prefix:
  "\<exists>post. device_list (scan_lines os ls s) d = device_list s d @ post"
proof (induction ls arbitrary: s)
  case Nil
  then show ?case by simp
next
  case (Cons l ls)
  obtain p1 where p1: "device_list (scan_line os l s) d = device_list s d @ p1"
    using scan_line_device_prefix by blast
  obtain p2 where "device_list (scan_lines os ls (scan_line os l s)) d
      = device_list (scan_line os l s) d @ p2"
    using Cons.IH by blast
  then have "device_list (scan_lines os (l # ls) s) d = device_list s d @ (p1 @ p2)"
    using p1 by simp
  then show ?case by blast
qed

lemma scan_line_device_valid:
  "parseMountInfoLine l = Some m \<Longrightarrow> canonicalizePath os (Path m) = Inr p \<Longrightarrow> isDir os p \<Longrightarrow>
   canonicalizePath os (Device m) = Inr d \<Longrightarrow> isDevice os d \<Longrightarrow>
   device_list (scan_line os l s) d = device_list s d @ [length (heap s)]"
  by (simp add: device_list_def scan_line_mountsByDevice)

lemma scan_line_device_nonempty:
  "\<forall>d. mountsByDevice s d \<noteq> Some [] \<Longrightarrow> mountsByDevice (scan_line os l s) d \<noteq> Some []"
  by (auto simp: scan_line_mountsByDevice split: option.splits sum.splits)

lemma scan_lines_device_nonempty:
  "\<forall>d. mountsByDevice s d \<noteq> Some [] \<Longrightarrow> mountsByDevice (scan_lines os ls s) d \<noteq> Some []"
proof (induction ls arbitrary: s)
  case Nil
  then show ?case by simp
next
  case (Cons l ls)
  have "\<forall>d. mountsByDevice (scan_line os l s) d \<noteq> Some []"
    using scan_line_device_nonempty[OF Cons.prems] by blast
  then show ?case using Cons.IH[of "scan_line os l s"] by simp
qed

lemma device_list_Some:
  "device_list s d \<noteq> [] \<Longrightarrow> mountsByDevice s d = Some (device_list s d)"
  by (simp add: device_list_def split: option.splits)

lemma scan_lines_path_dom:
  "mountsByPath s p \<noteq> None \<Longrightarrow> mountsByPath (scan_lines os ls s) p \<noteq> None"
proof (induction ls arbitrary: s)
  case Nil
  then show ?case by simp
next
  case (Cons l ls)
  have "mountsByPath (scan_line os l s) p \<noteq> None"
    using Cons.prems by (auto simp: scan_line_mountsByPath split: option.splits sum.splits)
  then show ?case using Cons.IH[of "scan_line os l s"] by simp
qed


lemma loadMountInfo_fresh:
  "\<not> mountsInitialized s \<Longrightarrow> mountinfo os = Inr lines \<Longrightarrow>
   loadMountInfo os s =
     (None, (scan_lines os lines
               (access OpenMountinfo (s\<lparr>mountsByPath := Map.empty, mountsByDevice := Map.empty\<rparr>)))
            \<lparr>mountsInitialized := True\<rparr>)"
  by (simp add: loadMountInfo_def Let_def)

lemma scan_line_path_inv:
  assumes "\<forall>q a. mountsByPath s q = Some a \<longrightarrow> a < length (heap s) \<and> Path (heap s ! a) = q"
  shows "\<forall>q a. mountsByPath (scan_line os l s) q = Some a \<longrightarrow>
           a < length (heap (scan_line os l s)) \<and> Path (heap (scan_line os l s) ! a) = q"
proof (intro allI impI)
  fix q a assume h: "mountsByPath (scan_line os l s) q = Some a"
  have le: "length (heap s) \<le> length (heap (scan_line os l s))"
    by (simp add: scan_line_heap split: option.splits)
  show "a < length (heap (scan_line os l s)) \<and> Path (heap (scan_line os l s) ! a) = q"
  proof (cases "mountsByPath s q = Some a")
    case True
    then have "a < length (heap s)" "Path (heap s ! a) = q" using assms by blast+
    then show ?thesis using le scan_line_heap_old[of a s os l] by simp
  next
    case False
    then obtain m where m: "parseMountInfoLine l = Some m"
      "canonicalizePath os (Path m) = Inr q" "isDir os q" "a = length (heap s)"
      using h by (auto simp: scan_line_mountsByPath split: option.splits sum.splits if_splits)
    show ?thesis
      using scan_line_heap_valid[OF m(1,2,3), of s] scan_line_heap_grows[OF m(1), of os s] m(4)
      by simp
  qed
qed

lemma scan_lines_path_inv:
  "\<forall>q a. mountsByPath s q = Some a \<longrightarrow> a < length (heap s) \<and> Path (heap s ! a) = q \<Longrightarrow>
   \<forall>q a. mountsByPath (scan_lines os ls s) q = Some a \<longrightarrow>
           a < length (heap (scan_lines os ls s)) \<and> Path (heap (scan_lines os ls s) ! a) = q"
proof (induction ls arbitrary: s)
  case Nil
  then show ?case by simp
next
  case (Cons l ls)
  show ?case using Cons.IH[OF scan_line_path_inv[OF Cons.prems]] by simp
qed

lemma parse_example:
  "parseMountInfoLine example_line =
     Some \<lparr>Path = ''/mnt 2'', FilesystemType = ''ext3'', Device = ''/dev/root''\<rparr>"
proof -
  have f: "find_separator (Split example_line (CHR '' '')) 6 = Some 7"
    by (simp add: Split_example find_separator_step[of _ 6] find_separator_step[of _ 7])
  show ?thesis
    by (simp add: parseMountInfoLine_def f Let_def)
       (simp add: Split_example unescapeString_Cons unescapeString_Nil ParseInt_8_8_def
          ParseUint_8_8_def octal_digit_def char_of_def)
qed

lemma example_canon:
  "canonicalizePath example_env ''/mnt 2'' = Inr ''/mnt 2''"
  "canonicalizePath example_env ''/dev/root'' = Inr ''/dev/root''"
  "isDir example_env ''/mnt 2''" "isDevice example_env ''/dev/root''"
  "\<not> mountsInitialized initial_state" "heap initial_state = []"
  "mountinfo example_env = Inr ([] @ example_line # [] @ example_line # [])"
  by (simp_all add: example_env_def initial_state_def)

text \<open>
  C4.  A load of an uninitialized table scans the lines \<open>xs @ l1 # ys @ l2 # zs\<close>, where
  \<open>l1\<close> and \<open>l2\<close> are valid records whose mount points canonicalize to the same
  directory \<open>p\<close>.  The Mount of a line is the heap index that is free when the line is
  scanned: the old heap size plus the number of lines parsed before it.  After the
  load, \<open>mountsByPath p\<close> is not the Mount of the earlier record \<open>l1\<close>; every key of the
  index maps to one Mount, whose path is that key; and when no line after \<open>l2\<close>
  canonicalizes to \<open>p\<close>, \<open>mountsByPath p\<close> is the Mount of \<open>l2\<close>, with the filesystem type
  of \<open>l2\<close>.
\<close>

theorem loadMountInfo_later_record_wins:
  assumes init: "\<not> mountsInitialized s"
    and src: "mountinfo os = Inr (xs @ l1 # ys @ l2 # zs)"
    and r1: "parseMountInfoLine l1 = Some m1" "canonicalizePath os (Path m1) = Inr p" "isDir os p"
    and r2: "parseMountInfoLine l2 = Some m2" "canonicalizePath os (Path m2) = Inr p"
  shows "fst (loadMountInfo os s) = None \<and>
         mountsByPath (snd (loadMountInfo os s)) p
           \<noteq> Some (length (heap s) + length (filter (\<lambda>l. parseMountInfoLine l \<noteq> None) xs)) \<and>
         (\<exists>a. mountsByPath (snd (loadMountInfo os s)) p = Some a) \<and>
         (\<forall>q a. mountsByPath (snd (loadMountInfo os s)) q = Some a \<longrightarrow>
                a < length (heap (snd (loadMountInfo os s))) \<and>
                Path (heap (snd (loadMountInfo os s)) ! a) = q) \<and>
         ((\<forall>l\<in>set zs. \<forall>m. parseMountInfoLine l = Some m \<longrightarrow> canonicalizePath os (Path m) \<noteq> Inr p)
           \<longrightarrow>
           mountsByPath (snd (loadMountInfo os s)) p
             = Some (length (heap s) +
                     length (filter (\<lambda>l. parseMountInfoLine l \<noteq> None) (xs @ l1 # ys))) \<and>
           FilesystemType
             (heap (snd (loadMountInfo os s)) !
                (length (heap s) +
                 length (filter (\<lambda>l. parseMountInfoLine l \<noteq> None) (xs @ l1 # ys))))
             = FilesystemType m2)"
proof -
  define s0 where
    "s0 = access OpenMountinfo (s\<lparr>mountsByPath := Map.empty, mountsByDevice := Map.empty\<rparr>)"
  define sA where "sA = scan_lines os xs s0"
  define sB where "sB = scan_line os l1 sA"
  define sC where "sC = scan_lines os ys sB"
  define sD where "sD = scan_line os l2 sC"
  define sE where "sE = scan_lines os zs sD"
  define a1 where "a1 = length (heap s) + length (filter (\<lambda>l. parseMountInfoLine l \<noteq> None) xs)"
  define a2 where
    "a2 = length (heap s) + length (filter (\<lambda>l. parseMountInfoLine l \<noteq> None) (xs @ l1 # ys))"
  have h0: "heap s0 = heap s" "mountsByPath s0 = Map.empty"
    by (simp_all add: s0_def access_def)
  have fin: "scan_lines os (xs @ l1 # ys @ l2 # zs) s0 = sE"
    by (simp add: scan_lines_append sA_def sB_def sC_def sD_def sE_def)
  have ld: "loadMountInfo os s = (None, sE\<lparr>mountsInitialized := True\<rparr>)"
    using loadMountInfo_fresh[OF init src] fin by (simp add: s0_def)
  have lA: "length (heap sA) = a1"
    by (simp add: sA_def a1_def scan_lines_heap_length h0)
  have lB: "length (heap sB) = Suc a1"
    using scan_line_heap_grows[OF r1(1), of os sA] lA by (simp add: sB_def)
  have lC: "length (heap sC) = a2"
    using scan_lines_heap_length[of os ys sB] lB r1(1)
    by (simp add: sC_def a2_def a1_def)
  have lD: "length (heap sD) = Suc a2"
    using scan_line_heap_grows[OF r2(1), of os sC] lC by (simp add: sD_def)
  have dir2: "isDir os p" by (rule r1(3))
  have pD: "mountsByPath sD p = Some a2"
    using scan_line_path_valid[OF r2 dir2, of sC] lC by (simp add: sD_def)
  have lt: "a1 < a2" using lB lC scan_lines_heap_length[of os ys sB] by (simp add: sC_def)
  have inv0: "\<forall>q a. mountsByPath s0 q = Some a \<longrightarrow> a < length (heap s0) \<and> Path (heap s0 ! a) = q"
    by (simp add: h0)
  have invE: "\<forall>q a. mountsByPath sE q = Some a \<longrightarrow> a < length (heap sE) \<and> Path (heap sE ! a) = q"
    using scan_lines_path_inv[OF inv0, of os "xs @ l1 # ys @ l2 # zs"] fin by simp
  have exE: "\<exists>a. mountsByPath sE p = Some a"
    using scan_lines_path_dom[of sD p os zs] pD by (auto simp: sE_def)
  have ne: "mountsByPath sE p \<noteq> Some a1"
  proof
    assume "mountsByPath sE p = Some a1"
    then have "mountsByPath sD p = Some a1 \<or> length (heap sD) \<le> a1"
      using scan_lines_path_fresh[of os zs sD p a1] by (simp add: sE_def)
    then show False using pD lD lt by auto
  qed
  have last: "mountsByPath sE p = Some a2 \<and> FilesystemType (heap sE ! a2) = FilesystemType m2"
    if z: "\<forall>l\<in>set zs. \<forall>m. parseMountInfoLine l = Some m \<longrightarrow> canonicalizePath os (Path m) \<noteq> Inr p"
  proof -
    have "mountsByPath sE p = Some a2"
      using scan_lines_path_unchanged[OF z, of sD] pD by (simp add: sE_def)
    moreover have "heap sD ! a2 =
       m2\<lparr>Path := p,
          Device := (case canonicalizePath os (Device m2) of
                       Inr d \<Rightarrow> if isDevice os d then d else []
                     | Inl e \<Rightarrow> [])\<rparr>"
      using scan_line_heap_valid[OF r2 dir2, of sC] lC by (simp add: sD_def)
    moreover have "heap sE ! a2 = heap sD ! a2"
      using scan_lines_heap_old[of a2 sD os zs] lD by (simp add: sE_def)
    ultimately show ?thesis by simp
  qed
  show ?thesis
    unfolding ld a1_def[symmetric] a2_def[symmetric]
    using exE ne invE last by simp
qed


theorem loadMountInfo_later_record_wins_witness:
  "fst (loadMountInfo example_env initial_state) = None \<and>
   mountsByPath (snd (loadMountInfo example_env initial_state)) ''/mnt 2'' \<noteq> Some 0 \<and>
   mountsByPath (snd (loadMountInfo example_env initial_state)) ''/mnt 2'' = Some 1 \<and>
   FilesystemType (heap (snd (loadMountInfo example_env initial_state)) ! 1) = ''ext3''"
  using loadMountInfo_later_record_wins
    [of initial_state example_env "[]" example_line "[]" example_line "[]"
       "\<lparr>Path = ''/mnt 2'', FilesystemType = ''ext3'', Device = ''/dev/root''\<rparr>" "''/mnt 2''"
       "\<lparr>Path = ''/mnt 2'', FilesystemType = ''ext3'', Device = ''/dev/root''\<rparr>",
     OF example_canon(5) example_canon(7) parse_example _ example_canon(3) parse_example]
  by (simp add: example_canon parse_example)

text \<open>
  C7.  A load of an uninitialized table scans the lines \<open>xs @ l1 # ys @ l2 # zs\<close>, where
  \<open>l1\<close> and \<open>l2\<close> are valid records whose device fields canonicalize to the same
  device node \<open>d\<close>.  After the load the list \<open>mountsByDevice d\<close> holds the Mounts of both
  lines, that of \<open>l1\<close> before that of \<open>l2\<close>, and both Mounts carry the device \<open>d\<close>.
\<close>

theorem loadMountInfo_device_order:
  assumes init: "\<not> mountsInitialized s"
    and src: "mountinfo os = Inr (xs @ l1 # ys @ l2 # zs)"
    and r1: "parseMountInfoLine l1 = Some m1" "canonicalizePath os (Path m1) = Inr p1" "isDir os p1"
    and d1: "canonicalizePath os (Device m1) = Inr d" "isDevice os d"
    and r2: "parseMountInfoLine l2 = Some m2" "canonicalizePath os (Path m2) = Inr p2" "isDir os p2"
    and d2: "canonicalizePath os (Device m2) = Inr d"
  shows "fst (loadMountInfo os s) = None \<and>
         (\<exists>pre mid post.
            mountsByDevice (snd (loadMountInfo os s)) d =
              Some (pre @
                    (length (heap s) + length (filter (\<lambda>l. parseMountInfoLine l \<noteq> None) xs)) #
                    mid @
                    (length (heap s) +
                     length (filter (\<lambda>l. parseMountInfoLine l \<noteq> None) (xs @ l1 # ys))) #
                    post)) \<and>
         length (heap s) + length (filter (\<lambda>l. parseMountInfoLine l \<noteq> None) xs)
           < length (heap s) + length (filter (\<lambda>l. parseMountInfoLine l \<noteq> None) (xs @ l1 # ys)) \<and>
         heap (snd (loadMountInfo os s)) !
           (length (heap s) + length (filter (\<lambda>l. parseMountInfoLine l \<noteq> None) xs))
           = \<lparr>Path = p1, FilesystemType = FilesystemType m1, Device = d\<rparr> \<and>
         heap (snd (loadMountInfo os s)) !
           (length (heap s) + length (filter (\<lambda>l. parseMountInfoLine l \<noteq> None) (xs @ l1 # ys)))
           = \<lparr>Path = p2, FilesystemType = FilesystemType m2, Device = d\<rparr>"
proof -
  define s0 where
    "s0 = access OpenMountinfo (s\<lparr>mountsByPath := Map.empty, mountsByDevice := Map.empty\<rparr>)"
  define sA where "sA = scan_lines os xs s0"
  define sB where "sB = scan_line os l1 sA"
  define sC where "sC = scan_lines os ys sB"
  define sD where "sD = scan_line os l2 sC"
  define sE where "sE = scan_lines os zs sD"
  define a1 where "a1 = length (heap s) + length (filter (\<lambda>l. parseMountInfoLine l \<noteq> None) xs)"
  define a2 where
    "a2 = length (heap s) + length (filter (\<lambda>l. parseMountInfoLine l \<noteq> None) (xs @ l1 # ys))"
  have h0: "heap s0 = heap s" by (simp add: s0_def access_def)
  have fin: "scan_lines os (xs @ l1 # ys @ l2 # zs) s0 = sE"
    by (simp add: scan_lines_append sA_def sB_def sC_def sD_def sE_def)
  have ld: "loadMountInfo os s = (None, sE\<lparr>mountsInitialized := True\<rparr>)"
    using loadMountInfo_fresh[OF init src] fin by (simp add: s0_def)
  have lA: "length (heap sA) = a1"
    by (simp add: sA_def a1_def scan_lines_heap_length h0)
  have lB: "length (heap sB) = Suc a1"
    using scan_line_heap_grows[OF r1(1), of os sA] lA by (simp add: sB_def)
  have lC: "length (heap sC) = a2"
    using scan_lines_heap_length[of os ys sB] lB r1(1)
    by (simp add: sC_def a2_def a1_def)
  have lD: "length (heap sD) = Suc a2"
    using scan_line_heap_grows[OF r2(1), of os sC] lC by (simp add: sD_def)
  have lt: "a1 < a2" using lB lC scan_lines_heap_length[of os ys sB] by (simp add: sC_def)
  have dB: "device_list sB d = device_list sA d @ [a1]"
    using scan_line_device_valid[OF r1 d1, of sA] lA by (simp add: sB_def)
  obtain mid where dC: "device_list sC d = device_list sB d @ mid"
    using scan_lines_device_prefix[of os ys sB d] by (auto simp: sC_def)
  have dD: "device_list sD d = device_list sC d @ [a2]"
    using scan_line_device_valid[OF r2 d2 d1(2), of sC] lC by (simp add: sD_def)
  obtain post where dE: "device_list sE d = device_list sD d @ post"
    using scan_lines_device_prefix[of os zs sD d] by (auto simp: sE_def)
  have dl: "device_list sE d = device_list sA d @ a1 # mid @ a2 # post"
    using dB dC dD dE by simp
  then have "device_list sE d \<noteq> []" by simp
  then have mE: "mountsByDevice sE d = Some (device_list sA d @ a1 # mid @ a2 # post)"
    using device_list_Some[of sE d] dl by simp
  have hB: "heap sB ! a1 = \<lparr>Path = p1, FilesystemType = FilesystemType m1, Device = d\<rparr>"
    using scan_line_heap_valid[OF r1, of sA] lA d1 by (simp add: sB_def)
  have hD: "heap sD ! a2 = \<lparr>Path = p2, FilesystemType = FilesystemType m2, Device = d\<rparr>"
    using scan_line_heap_valid[OF r2, of sC] lC d1 d2 by (simp add: sD_def)
  have "heap sC ! a1 = heap sB ! a1"
    using scan_lines_heap_old[of a1 sB os ys] lB by (simp add: sC_def)
  moreover have "heap sD ! a1 = heap sC ! a1"
    using scan_line_heap_old[of a1 sC os l2] lC lt by (simp add: sD_def)
  moreover have "heap sE ! a1 = heap sD ! a1"
    using scan_lines_heap_old[of a1 sD os zs] lD lt by (simp add: sE_def)
  ultimately have hE1: "heap sE ! a1 = \<lparr>Path = p1, FilesystemType = FilesystemType m1, Device = d\<rparr>"
    using hB by simp
  have hE2: "heap sE ! a2 = \<lparr>Path = p2, FilesystemType = FilesystemType m2, Device = d\<rparr>"
    using scan_lines_heap_old[of a2 sD os zs] lD hD by (simp add: sE_def)
  show ?thesis
    unfolding ld a1_def[symmetric] a2_def[symmetric]
    using mE lt hE1 hE2 by auto
qed


theorem loadMountInfo_device_order_witness:
  "fst (loadMountInfo example_env initial_state) = None \<and>
   (\<exists>pre mid post.
      mountsByDevice (snd (loadMountInfo example_env initial_state)) ''/dev/root''
        = Some (pre @ 0 # mid @ 1 # post)) \<and>
   heap (snd (loadMountInfo example_env initial_state)) ! 0
     = \<lparr>Path = ''/mnt 2'', FilesystemType = ''ext3'', Device = ''/dev/root''\<rparr> \<and>
   heap (snd (loadMountInfo example_env initial_state)) ! 1
     = \<lparr>Path = ''/mnt 2'', FilesystemType = ''ext3'', Device = ''/dev/root''\<rparr>"
  using loadMountInfo_device_order
    [of initial_state example_env "[]" example_line "[]" example_line "[]"
       "\<lparr>Path = ''/mnt 2'', FilesystemType = ''ext3'', Device = ''/dev/root''\<rparr>" "''/mnt 2''"
       "''/dev/root''"
       "\<lparr>Path = ''/mnt 2'', FilesystemType = ''ext3'', Device = ''/dev/root''\<rparr>" "''/mnt 2''",
     OF example_canon(5) example_canon(7) parse_example _ example_canon(3) _ example_canon(4)
        parse_example _ example_canon(3)]
  by (simp add: example_canon parse_example)


subsection \<open>getMountsFromLink\<close>

lemma loadMountInfo_device_nonempty:
  assumes "mountsInitialized s \<longrightarrow> (\<forall>d. mountsByDevice s d \<noteq> Some [])"
    and "loadMountInfo os s = (None, s')"
  shows "mountsByDevice s' d \<noteq> Some []"
proof (cases "mountsInitialized s")
  case True
  then show ?thesis using assms by (simp add: loadMountInfo_def)
next
  case False
  then obtain lines where l: "mountinfo os = Inr lines"
    using assms(2) by (cases "mountinfo os") (auto simp: loadMountInfo_def Let_def)
  define s0 where
    "s0 = access OpenMountinfo (s\<lparr>mountsByPath := Map.empty, mountsByDevice := Map.empty\<rparr>)"
  have "\<forall>d. mountsByDevice s0 d \<noteq> Some []" by (simp add: s0_def access_def)
  from scan_lines_device_nonempty[OF this, of os lines d]
  show ?thesis using loadMountInfo_fresh[OF False l] assms(2) by (auto simp: s0_def)
qed

lemma Split_links:
  "Split ''UUID=a=b'' (CHR ''='') = [''UUID'', ''a'', ''b'']"
  "Split ''LABEL=x'' (CHR ''='') = [''LABEL'', ''x'']"
  "Split ''UUID=..'' (CHR ''='') = [''UUID'', ''..'']"
  "Split ''UUID=a/b'' (CHR ''='') = [''UUID'', ''a/b'']"
  "Split ''UUID=1234'' (CHR ''='') = [''UUID'', ''1234'']"
  "Split ''UUID=abcd'' (CHR ''='') = [''UUID'', ''abcd'']"
  by (simp_all add: Split.simps)

lemma Join_examples:
  "Join [uuidDirectory, ''..''] = ''/dev/disk''"
  "Join [uuidDirectory, ''a/b''] = ''/dev/disk/by-uuid/a/b''"
  "Join [uuidDirectory, ''1234''] = ''/dev/disk/by-uuid/1234''"
  "Join [uuidDirectory, ''abcd''] = ''/dev/disk/by-uuid/abcd''"
  by (simp_all add: Join_def Clean_def uuidDirectory_def Split.simps Let_def)

lemma Base_examples:
  "Base ''/dev/disk'' = ''disk''"
  "Base ''/dev/disk/by-uuid/a/b'' = ''b''"
  "Base ''/dev/disk/by-uuid/1234'' = ''1234''"
  "Base ''/dev/disk/by-uuid/abcd'' = ''abcd''"
  by (simp_all add: Base_def Let_def)

lemma example_load:
  "fst (loadMountInfo example_env (access a initial_state)) = None"
  "mountsByDevice (snd (loadMountInfo example_env (access a initial_state))) ''/dev/sdb1'' = None"
  "mountsByDevice (snd (loadMountInfo example_env (access a initial_state))) ''/dev/root''
     = Some [0, 1]"
  by (simp_all add: loadMountInfo_def Let_def example_env_def access_def initial_state_def
      scan_line_mountsByDevice scan_line_heap parse_example)

text \<open>
  C8.  For a well-formed link \<open>UUID=value\<close> whose symlink canonicalizes to \<open>devicePath\<close>,
  when the load succeeds and \<open>mountsByDevice\<close> has no entry for \<open>devicePath\<close>,
  \<open>getMountsFromLink\<close> returns the error \<open>ErrFollowLink\<close> wrapped with
  \<open>no mounts for device\<close>.  Whenever \<open>getMountsFromLink\<close> succeeds, the list it returns
  is not empty, provided that a table already initialized holds no empty list (which
  every load establishes).
\<close>

theorem getMountsFromLink_unmounted_device:
  "(length (Split link (CHR ''='')) = 2 \<and>
    Split link (CHR ''='') ! 0 = uuidToken \<and>
    Base (Join [uuidDirectory, Split link (CHR ''='') ! 1]) = Split link (CHR ''='') ! 1 \<and>
    canonicalizePath os (Join [uuidDirectory, Split link (CHR ''='') ! 1]) = Inr devicePath \<and>
    loadMountInfo os
      (access (Canonicalize (Join [uuidDirectory, Split link (CHR ''='') ! 1])) s) = (None, s2) \<and>
    mountsByDevice s2 devicePath = None \<longrightarrow>
    getMountsFromLink os link s =
      (Inl (Wrapf ErrFollowLink ''no mounts for device %q'' devicePath), s2)) \<and>
   ((mountsInitialized s \<longrightarrow> (\<forall>d. mountsByDevice s d \<noteq> Some [])) \<and>
    getMountsFromLink os link s = (Inr mnts, s') \<longrightarrow> mnts \<noteq> [])"
proof (intro conjI impI)
  assume "length (Split link (CHR ''='')) = 2 \<and>
    Split link (CHR ''='') ! 0 = uuidToken \<and>
    Base (Join [uuidDirectory, Split link (CHR ''='') ! 1]) = Split link (CHR ''='') ! 1 \<and>
    canonicalizePath os (Join [uuidDirectory, Split link (CHR ''='') ! 1]) = Inr devicePath \<and>
    loadMountInfo os
      (access (Canonicalize (Join [uuidDirectory, Split link (CHR ''='') ! 1])) s) = (None, s2) \<and>
    mountsByDevice s2 devicePath = None"
  then show "getMountsFromLink os link s =
      (Inl (Wrapf ErrFollowLink ''no mounts for device %q'' devicePath), s2)"
    by (simp add: getMountsFromLink_def Let_def)
next
  assume h: "(mountsInitialized s \<longrightarrow> (\<forall>d. mountsByDevice s d \<noteq> Some [])) \<and>
    getMountsFromLink os link s = (Inr mnts, s')"
  then have "\<exists>sp dp. loadMountInfo os (access (Canonicalize sp) s) = (None, s') \<and>
                 mountsByDevice s' dp = Some mnts"
    by (auto simp: getMountsFromLink_def Let_def
        split: if_splits sum.splits prod.splits option.splits)
  then obtain sp dp where dp: "loadMountInfo os (access (Canonicalize sp) s) = (None, s')"
    "mountsByDevice s' dp = Some mnts" by blast
  have i1: "mountsInitialized (access (Canonicalize sp) s) \<longrightarrow>
            (\<forall>d. mountsByDevice (access (Canonicalize sp) s) d \<noteq> Some [])"
    using h by (simp add: access_def)
  show "mnts \<noteq> []"
    using loadMountInfo_device_nonempty[OF i1 dp(1), of dp] dp(2) by auto
qed

theorem getMountsFromLink_unmounted_device_witness:
  "canonicalizePath example_env (Join [uuidDirectory, ''1234'']) = Inr ''/dev/sdb1'' \<and>
   mountsByDevice
     (snd (loadMountInfo example_env
        (access (Canonicalize (Join [uuidDirectory, ''1234''])) initial_state))) ''/dev/sdb1'' = None \<and>
   fst (getMountsFromLink example_env ''UUID=1234'' initial_state) =
     Inl (Wrapf ErrFollowLink ''no mounts for device %q'' ''/dev/sdb1'') \<and>
   fst (getMountsFromLink example_env ''UUID=abcd'' initial_state) = Inr [0, 1] \<and>
   [0, 1 :: nat] \<noteq> []"
proof -
  let ?s1 = "access (Canonicalize ''/dev/disk/by-uuid/1234'') initial_state"
  let ?s3 = "access (Canonicalize ''/dev/disk/by-uuid/abcd'') initial_state"
  obtain s2 where l: "loadMountInfo example_env ?s1 = (None, s2)"
    using example_load(1)[of "Canonicalize ''/dev/disk/by-uuid/1234''"]
    by (cases "loadMountInfo example_env ?s1") simp
  have m: "mountsByDevice s2 ''/dev/sdb1'' = None"
    using example_load(2)[of "Canonicalize ''/dev/disk/by-uuid/1234''"] by (simp add: l)
  obtain s4 where l2: "loadMountInfo example_env ?s3 = (None, s4)"
    using example_load(1)[of "Canonicalize ''/dev/disk/by-uuid/abcd''"]
    by (cases "loadMountInfo example_env ?s3") simp
  have m2: "mountsByDevice s4 ''/dev/root'' = Some [0, 1]"
    using example_load(3)[of "Canonicalize ''/dev/disk/by-uuid/abcd''"] by (simp add: l2)
  have c: "canonicalizePath example_env ''/dev/disk/by-uuid/1234'' = Inr ''/dev/sdb1''"
    by (simp add: example_env_def)
  have c2: "canonicalizePath example_env ''/dev/disk/by-uuid/abcd'' = Inr ''/dev/root''"
    by (simp add: example_env_def)
  have g: "getMountsFromLink example_env ''UUID=abcd'' initial_state = (Inr [0, 1], s4)"
    by (simp add: getMountsFromLink_def Let_def Split_links uuidToken_def Join_examples
        Base_examples c2 l2 m2)
  have i: "mountsInitialized initial_state \<longrightarrow> (\<forall>d. mountsByDevice initial_state d \<noteq> Some [])"
    by (simp add: initial_state_def)
  have n: "[0, 1 :: nat] \<noteq> []"
    by (rule getMountsFromLink_unmounted_device
      [of "''UUID=abcd''" example_env "''/dev/sdb1''" initial_state initial_state "[0, 1]" s4,
       THEN conjunct2, THEN mp, OF conjI, OF i g])
  have h: "length (Split ''UUID=1234'' (CHR ''='')) = 2 \<and>
    Split ''UUID=1234'' (CHR ''='') ! 0 = uuidToken \<and>
    Base (Join [uuidDirectory, Split ''UUID=1234'' (CHR ''='') ! 1]) = Split ''UUID=1234'' (CHR ''='') ! 1 \<and>
    canonicalizePath example_env (Join [uuidDirectory, Split ''UUID=1234'' (CHR ''='') ! 1])
      = Inr ''/dev/sdb1'' \<and>
    loadMountInfo example_env
      (access (Canonicalize (Join [uuidDirectory, Split ''UUID=1234'' (CHR ''='') ! 1])) initial_state)
      = (None, s2) \<and>
    mountsByDevice s2 ''/dev/sdb1'' = None"
    by (simp add: Split_links uuidToken_def Join_examples Base_examples c l m)
  have r: "getMountsFromLink example_env ''UUID=1234'' initial_state =
     (Inl (Wrapf ErrFollowLink ''no mounts for device %q'' ''/dev/sdb1''), s2)"
    by (rule getMountsFromLink_unmounted_device
      [of "''UUID=1234''" example_env "''/dev/sdb1''" initial_state s2 "[]" initial_state,
       THEN conjunct1, THEN mp, OF h])
  show ?thesis
    using c r g n example_load(2)[of "Canonicalize ''/dev/disk/by-uuid/1234''"]
    by (simp add: Join_examples)
qed

text \<open>
  C5.  \<open>getMountsFromLink\<close> returns \<open>ErrFollowLink\<close> and leaves the state as it was, so
  with no entry added to the log of file system accesses and no load, when the link
  does not split into exactly two components at \<open>=\<close> (format is invalid), when the
  token is not \<open>UUID\<close> (token type not supported), and when the last element of the
  value joined onto the UUID directory is not the value (not a UUID).
\<close>

theorem getMountsFromLink_rejects_before_access:
  "(length (Split link (CHR ''='')) \<noteq> 2 \<longrightarrow>
      getMountsFromLink os link s =
        (Inl (Wrapf ErrFollowLink ''link %q format is invalid'' link), s)) \<and>
   (length (Split link (CHR ''='')) = 2 \<and> Split link (CHR ''='') ! 0 \<noteq> uuidToken \<longrightarrow>
      getMountsFromLink os link s =
        (Inl (Wrapf ErrFollowLink ''token type %q not supported'' (Split link (CHR ''='') ! 0)), s)) \<and>
   (length (Split link (CHR ''='')) = 2 \<and> Split link (CHR ''='') ! 0 = uuidToken \<and>
    Base (Join [uuidDirectory, Split link (CHR ''='') ! 1]) \<noteq> Split link (CHR ''='') ! 1 \<longrightarrow>
      getMountsFromLink os link s =
        (Inl (Wrapf ErrFollowLink ''value %q is not a UUID'' (Split link (CHR ''='') ! 1)), s))"
  by (simp add: getMountsFromLink_def Let_def)

theorem getMountsFromLink_rejects_before_access_witness:
  "length (Split ''UUID=a=b'' (CHR ''='')) \<noteq> 2 \<and>
   getMountsFromLink example_env ''UUID=a=b'' initial_state =
     (Inl (Wrapf ErrFollowLink ''link %q format is invalid'' ''UUID=a=b''), initial_state) \<and>
   Split ''LABEL=x'' (CHR ''='') ! 0 \<noteq> uuidToken \<and>
   getMountsFromLink example_env ''LABEL=x'' initial_state =
     (Inl (Wrapf ErrFollowLink ''token type %q not supported'' ''LABEL''), initial_state) \<and>
   Base (Join [uuidDirectory, ''..'']) \<noteq> ''..'' \<and>
   getMountsFromLink example_env ''UUID=..'' initial_state =
     (Inl (Wrapf ErrFollowLink ''value %q is not a UUID'' ''..''), initial_state) \<and>
   Base (Join [uuidDirectory, ''a/b'']) \<noteq> ''a/b'' \<and>
   getMountsFromLink example_env ''UUID=a/b'' initial_state =
     (Inl (Wrapf ErrFollowLink ''value %q is not a UUID'' ''a/b''), initial_state)"
  using getMountsFromLink_rejects_before_access[of "''UUID=a=b''" example_env initial_state]
    getMountsFromLink_rejects_before_access[of "''LABEL=x''" example_env initial_state]
    getMountsFromLink_rejects_before_access[of "''UUID=..''" example_env initial_state]
    getMountsFromLink_rejects_before_access[of "''UUID=a/b''" example_env initial_state]
  by (simp add: Split_links Join_examples Base_examples uuidToken_def)


subsection \<open>makeLink\<close>

text \<open>
  C9.  \<open>makeLink\<close> returns \<open>ErrMakeLink\<close> and leaves the state as it was, so without
  reading the UUID directory, when the token is not \<open>UUID\<close> and when the token is
  \<open>UUID\<close> and the Mount's device is empty.  In every other case the directory is read.
\<close>

theorem makeLink_fails_before_ReadDir:
  "(token \<noteq> uuidToken \<longrightarrow>
      makeLink os mnt token s =
        (Inl (Wrapf ErrMakeLink ''token type %q not supported'' token), s)) \<and>
   (token = uuidToken \<and> Device mnt = [] \<longrightarrow>
      makeLink os mnt token s =
        (Inl (Wrapf ErrMakeLink ''no device for mount %q'' (Path mnt)), s)) \<and>
   (token = uuidToken \<and> Device mnt \<noteq> [] \<longrightarrow>
      ListDir uuidDirectory \<in> set (fs_log (snd (makeLink os mnt token s))))"
proof -
  have mono: "set (fs_log t) \<subseteq> set (fs_log (snd (scan_uuid_entries os mnt es t)))" for es t
  proof (induction es arbitrary: t)
    case Nil
    then show ?case by simp
  next
    case (Cons e es)
    obtain uuid symlink where e: "e = (uuid, symlink)" by (cases e)
    have a: "set (fs_log t) \<subseteq> set (fs_log (access x t))" for x
      by (auto simp: access_def)
    show ?case
      unfolding e
      using Cons.IH[of t] Cons.IH[of "access (Canonicalize (Join [uuidDirectory, uuid])) t"]
        a[of "Canonicalize (Join [uuidDirectory, uuid])"]
      by (auto simp: Let_def split: sum.splits)
  qed
  have "ListDir uuidDirectory \<in> set (fs_log (access (ListDir uuidDirectory) s))"
    by (simp add: access_def)
  then have "ListDir uuidDirectory \<in> set (fs_log (snd (makeLink os mnt token s)))"
    if "token = uuidToken" "Device mnt \<noteq> []"
    using that mono[of "access (ListDir uuidDirectory) s"]
    by (auto simp: makeLink_def Let_def split: sum.splits)
  then show ?thesis by (simp add: makeLink_def)
qed

theorem makeLink_fails_before_ReadDir_witness:
  "''LABEL'' \<noteq> uuidToken \<and>
   makeLink example_env \<lparr>Path = ''/proc'', FilesystemType = ''proc'', Device = []\<rparr> ''LABEL''
       initial_state =
     (Inl (Wrapf ErrMakeLink ''token type %q not supported'' ''LABEL''), initial_state) \<and>
   makeLink example_env \<lparr>Path = ''/proc'', FilesystemType = ''proc'', Device = []\<rparr> uuidToken
       initial_state =
     (Inl (Wrapf ErrMakeLink ''no device for mount %q'' ''/proc''), initial_state) \<and>
   ListDir uuidDirectory \<in>
     set (fs_log (snd (makeLink example_env
        \<lparr>Path = ''/mnt 2'', FilesystemType = ''ext3'', Device = ''/dev/root''\<rparr> uuidToken
        initial_state)))"
  using makeLink_fails_before_ReadDir
      [of "''LABEL''" example_env "\<lparr>Path = ''/proc'', FilesystemType = ''proc'', Device = []\<rparr>"
          initial_state]
    makeLink_fails_before_ReadDir
      [of uuidToken example_env "\<lparr>Path = ''/proc'', FilesystemType = ''proc'', Device = []\<rparr>"
          initial_state]
    makeLink_fails_before_ReadDir
      [of uuidToken example_env
          "\<lparr>Path = ''/mnt 2'', FilesystemType = ''ext3'', Device = ''/dev/root''\<rparr>"
          initial_state]
  by (simp add: uuidToken_def)

subsection \<open>FindMount and GetMount\<close>

declare find_upward.simps [simp del]

lemma find_upward_hit: "m path = Some mnt \<Longrightarrow> find_upward m path = Inr mnt"
  by (subst find_upward.simps) simp

lemma find_upward_up:
  "m path = None \<Longrightarrow> Dir path \<noteq> path \<Longrightarrow> find_upward m path = find_upward m (Dir path)"
  by (subst find_upward.simps) (simp add: Let_def)

lemma find_upward_root:
  "m path = None \<Longrightarrow> Dir path = path \<Longrightarrow> find_upward m path = Inl (Wrap ErrNotAMountpoint path)"
  by (subst find_upward.simps) (simp add: Let_def)

lemma find_upward_error:
  "find_upward m path = Inl e \<Longrightarrow>
   \<exists>root. e = Wrap ErrNotAMountpoint root \<and> Dir root = root \<and> m root = None"
proof (induction m path rule: find_upward.induct)
  case (1 m path)
  show ?case
  proof (cases "m path")
    case (Some mnt)
    then show ?thesis using "1.prems" by (simp add: find_upward_hit)
  next
    case None
    show ?thesis
    proof (cases "Dir path = path")
      case True
      then show ?thesis using "1.prems" None by (auto simp: find_upward_root)
    next
      case False
      then show ?thesis using "1.IH"[OF None refl False] "1.prems" None
        by (simp add: find_upward_up)
    qed
  qed
qed

lemma Split_no_sep: "sep \<notin> set e \<Longrightarrow> Split e sep = [e]"
  by (induction e) (auto simp: Split_Nil Split_Cons)

lemma Split_elem_sep: "sep \<notin> set e \<Longrightarrow> Split (e @ sep # rest) sep = e # Split rest sep"
proof (induction e)
  case Nil
  then show ?case by (simp add: Split_Cons)
next
  case (Cons c e)
  then show ?case by (auto simp: Split_Cons)
qed

lemma Split_terminated:
  "\<forall>e\<in>set es. sep \<notin> set e \<Longrightarrow> Split (concat (map (\<lambda>e. e @ [sep]) es)) sep = es @ [[]]"
proof (induction es)
  case Nil
  then show ?case by (simp add: Split_Nil)
next
  case (Cons e es)
  then show ?case by (simp add: Split_elem_sep)
qed

lemma Clean_elems_plain:
  "\<forall>e\<in>set es. path_elem e \<Longrightarrow> Clean_elems rooted out (es @ [[]]) = out @ es"
proof (induction es arbitrary: out)
  case Nil
  then show ?case by simp
next
  case (Cons e es)
  then have "path_elem e" by simp
  then have "Clean_elems rooted out (e # es @ [[]]) = Clean_elems rooted (out @ [e]) (es @ [[]])"
    by (simp add: path_elem_def)
  then show ?case using Cons by simp
qed

lemma strings_Join_Cons:
  "es \<noteq> [] \<Longrightarrow> strings_Join (a # es) sep = a @ sep @ strings_Join es sep"
  by (cases es) simp_all

lemma strings_Join_snoc:
  "strings_Join (es @ [e]) sep = concat (map (\<lambda>x. x @ sep) es) @ e"
proof (induction es)
  case Nil
  then show ?case by simp
next
  case (Cons a es)
  have "strings_Join (a # (es @ [e])) sep = a @ sep @ strings_Join (es @ [e]) sep"
    by (rule strings_Join_Cons) simp
  then show ?case using Cons by simp
qed

lemma abs_path_snoc:
  "abs_path (es @ [e]) = slash # concat (map (\<lambda>e. e @ [slash]) es) @ e"
  by (simp add: abs_path_def strings_Join_snoc)

lemma Dir_abs_path_snoc:
  assumes "\<forall>x\<in>set es. path_elem x" "path_elem e"
  shows "Dir (abs_path (es @ [e])) = abs_path es"
proof -
  let ?A = "slash # concat (map (\<lambda>e. e @ [slash]) es)"
  have ne: "slash \<notin> set e" using assms(2) by (simp add: path_elem_def)
  obtain B where B: "?A = B @ [slash]"
  proof (cases es rule: rev_cases)
    case Nil
    then have "?A = [] @ [slash]" by simp
    then show ?thesis using that by blast
  next
    case (snoc ys y)
    then have "?A = (slash # concat (map (\<lambda>e. e @ [slash]) ys) @ y) @ [slash]" by simp
    then show ?thesis using that by blast
  qed
  have "dropWhile (\<lambda>c. c \<noteq> slash) (rev (?A @ e)) = rev ?A"
  proof -
    have "rev (?A @ e) = rev e @ (slash # rev B)" by (simp only: B) simp
    moreover have "dropWhile (\<lambda>c. c \<noteq> slash) (rev e @ (slash # rev B)) = slash # rev B"
      using ne by (subst dropWhile_append2) auto
    moreover have "rev ?A = slash # rev B" by (simp only: B) simp
    ultimately show ?thesis by simp
  qed
  then have d: "Dir (abs_path (es @ [e])) = Clean ?A"
    by (simp add: Dir_def abs_path_snoc)
  have sp: "Split ?A slash = [] # es @ [[]]"
    using Split_terminated[of es slash] assms(1) by (simp add: Split_Cons path_elem_def)
  have ce: "Clean_elems True [] (es @ [[]]) = es"
    using Clean_elems_plain[OF assms(1), of True "[]"] by simp
  show ?thesis
    unfolding d by (simp add: Clean_def sp ce abs_path_def)
qed

lemma abs_path_length: "length (abs_path es) < length (abs_path (es @ [e])) \<or> (es = [] \<and> e = [])"
  by (cases es) (auto simp: abs_path_snoc abs_path_def strings_Join_length)

lemma find_upward_inside:
  assumes "\<forall>e\<in>set (pre @ suf). path_elem e"
    and "m (abs_path pre) = Some mnt"
    and "\<forall>j. 0 < j \<and> j \<le> length suf \<longrightarrow> m (abs_path (pre @ take j suf)) = None"
  shows "find_upward m (abs_path (pre @ suf)) = Inr mnt"
  using assms
proof (induction suf rule: rev_induct)
  case Nil
  then show ?case by (simp add: find_upward_hit)
next
  case (snoc e suf)
  have pe: "\<forall>x\<in>set (pre @ suf). path_elem x" "path_elem e" using snoc.prems(1) by simp_all
  have n: "m (abs_path (pre @ suf @ [e])) = None"
    using snoc.prems(3)[rule_format, of "length (suf @ [e])"] by simp
  have d: "Dir (abs_path ((pre @ suf) @ [e])) = abs_path (pre @ suf)"
    by (rule Dir_abs_path_snoc[OF pe])
  have ne: "abs_path (pre @ suf) \<noteq> abs_path ((pre @ suf) @ [e])"
    using abs_path_length[of "pre @ suf" e] pe(2) by (auto simp: path_elem_def)
  have inner: "\<forall>j. 0 < j \<and> j \<le> length suf \<longrightarrow> m (abs_path (pre @ take j suf)) = None"
  proof (intro allI impI)
    fix j assume j: "0 < j \<and> j \<le> length suf"
    then have "m (abs_path (pre @ take j (suf @ [e]))) = None"
      using snoc.prems(3)[rule_format, of j] by simp
    then show "m (abs_path (pre @ take j suf)) = None" using j by simp
  qed
  have "find_upward m (abs_path ((pre @ suf) @ [e])) = find_upward m (Dir (abs_path ((pre @ suf) @ [e])))"
    using n d ne by (intro find_upward_up) simp_all
  then show ?case using d snoc.IH[OF pe(1) snoc.prems(2) inner] by simp
qed

lemma example_load_path:
  "fst (loadMountInfo example_env (access a initial_state)) = None"
  "mountsByPath (snd (loadMountInfo example_env (access a initial_state))) = [''/mnt 2'' \<mapsto> 1]"
  by (simp_all add: loadMountInfo_def Let_def example_env_def access_def initial_state_def
      scan_line_mountsByPath scan_line_heap parse_example)

lemma Dir_examples:
  "Dir ''/a/b'' = ''/a''" "Dir ''/a'' = ''/''" "Dir ''/'' = ''/''"
  by (simp_all add: Dir_def Clean_def Split.simps Let_def)

lemma find_upward_example:
  assumes "m ''/a/b'' = None" "m ''/a'' = None" "m ''/'' = None"
  shows "find_upward m ''/a/b'' = Inl (Wrap ErrNotAMountpoint ''/'')"
proof -
  have "find_upward m ''/a/b'' = find_upward m ''/a''"
    using find_upward_up[of m "''/a/b''"] assms by (simp add: Dir_examples)
  also have "\<dots> = find_upward m ''/''"
    using find_upward_up[of m "''/a''"] assms by (simp add: Dir_examples)
  also have "\<dots> = Inl (Wrap ErrNotAMountpoint ''/'')"
    using find_upward_root[of m "''/''"] assms by (simp add: Dir_examples)
  finally show ?thesis .
qed

text \<open>
  C6.  Let the queried path be canonical, with the elements \<open>pre @ suf\<close> and \<open>suf\<close> not
  empty, let the directory with the elements \<open>pre\<close> be a key of the index, and let no
  longer prefix of the path, the path itself included, be a key.  Then \<open>GetMount\<close>
  returns \<open>ErrNotAMountpoint\<close> for the path, and \<open>FindMount\<close> on the same path returns
  the Mount stored for the enclosing directory.
\<close>

theorem GetMount_FindMount_inside_mount:
  assumes elems: "\<forall>e\<in>set (pre @ suf). path_elem e"
    and canon: "canonicalizePath os (abs_path (pre @ suf)) = Inr (abs_path (pre @ suf))"
    and load: "loadMountInfo os (access (Canonicalize (abs_path (pre @ suf))) s) = (None, s2)"
    and mount: "mountsByPath s2 (abs_path pre) = Some mnt"
    and inner: "\<forall>j. 0 < j \<and> j \<le> length suf \<longrightarrow>
                  mountsByPath s2 (abs_path (pre @ take j suf)) = None"
    and strict: "suf \<noteq> []"
  shows "GetMount os (abs_path (pre @ suf)) s =
           (Inl (Wrap ErrNotAMountpoint (abs_path (pre @ suf))), s2) \<and>
         FindMount os (abs_path (pre @ suf)) s = (Inr mnt, s2)"
proof -
  have "mountsByPath s2 (abs_path (pre @ take (length suf) suf)) = None"
    using inner[rule_format, of "length suf"] strict by simp
  then have n: "mountsByPath s2 (abs_path (pre @ suf)) = None" by simp
  have g: "GetMount os (abs_path (pre @ suf)) s =
           (Inl (Wrap ErrNotAMountpoint (abs_path (pre @ suf))), s2)"
    by (simp add: GetMount_def Let_def canon load n)
  have f: "FindMount os (abs_path (pre @ suf)) s = (Inr mnt, s2)"
    by (simp add: FindMount_def Let_def canon load find_upward_inside[OF elems mount inner])
  from g f show ?thesis by simp
qed

theorem GetMount_FindMount_inside_mount_witness:
  "path_elem ''mnt 2'' \<and> path_elem ''a'' \<and> path_elem ''b'' \<and>
   abs_path ([''mnt 2''] @ [''a'', ''b'']) = ''/mnt 2/a/b'' \<and>
   canonicalizePath example_env ''/mnt 2/a/b'' = Inr ''/mnt 2/a/b'' \<and>
   fst (GetMount example_env ''/mnt 2/a/b'' initial_state)
     = Inl (Wrap ErrNotAMountpoint ''/mnt 2/a/b'') \<and>
   fst (FindMount example_env ''/mnt 2/a/b'' initial_state) = Inr 1"
proof -
  let ?p = "abs_path ([''mnt 2''] @ [''a'', ''b''])"
  have p: "?p = ''/mnt 2/a/b''" by (simp add: abs_path_def)
  obtain s2 where l':
    "loadMountInfo example_env (access (Canonicalize ''/mnt 2/a/b'') initial_state) = (None, s2)"
    using example_load_path(1)[of "Canonicalize ''/mnt 2/a/b''"]
    by (cases "loadMountInfo example_env (access (Canonicalize ''/mnt 2/a/b'') initial_state)") simp
  have l: "loadMountInfo example_env (access (Canonicalize ?p) initial_state) = (None, s2)"
    unfolding p by (rule l')
  have m: "mountsByPath s2 = [''/mnt 2'' \<mapsto> 1]"
    using example_load_path(2)[of "Canonicalize ''/mnt 2/a/b''"] by (simp add: l')
  have e: "\<forall>e\<in>set ([''mnt 2''] @ [''a'', ''b'']). path_elem e"
    by (simp add: path_elem_def)
  have c': "canonicalizePath example_env ''/mnt 2/a/b'' = Inr ''/mnt 2/a/b''"
    by (simp add: example_env_def)
  have c: "canonicalizePath example_env ?p = Inr ?p"
    unfolding p by (rule c')
  have mt: "mountsByPath s2 (abs_path [''mnt 2'']) = Some 1"
    by (simp add: m abs_path_def)
  have inner: "\<forall>j. 0 < j \<and> j \<le> length [''a'', ''b''] \<longrightarrow>
                  mountsByPath s2 (abs_path ([''mnt 2''] @ take j [''a'', ''b''])) = None"
  proof (intro allI impI)
    fix j :: nat assume "0 < j \<and> j \<le> length [''a'', ''b'']"
    then have "j = 1 \<or> j = 2" by auto
    then show "mountsByPath s2 (abs_path ([''mnt 2''] @ take j [''a'', ''b''])) = None"
      by (elim disjE) (simp_all add: m abs_path_def)
  qed
  have s: "[''a'', ''b''] \<noteq> []" by simp
  note t = GetMount_FindMount_inside_mount[OF e c l mt inner s]
  show ?thesis
    using t[unfolded p] c' by (simp add: path_elem_def abs_path_def)
qed

text \<open>
  C3.  With a table that has no entry for \<open>/a/b\<close>, \<open>/a\<close> or \<open>/\<close>, the walk of
  \<open>FindMount\<close> from \<open>/a/b\<close> ends at the root, and the error it returns wraps the path
  the walk has reached, \<open>/\<close>, not the queried path; \<open>GetMount\<close> wraps the queried path.
  By \<open>find_upward_error\<close> the path in the error of a failed walk is always one that is
  its own parent.
\<close>

theorem FindMount_not_a_mountpoint_names_root:
  "fst (FindMount example_env ''/a/b'' initial_state) = Inl (Wrap ErrNotAMountpoint ''/'') \<and>
   fst (FindMount example_env ''/a/b'' initial_state) \<noteq> Inl (Wrap ErrNotAMountpoint ''/a/b'') \<and>
   fst (GetMount example_env ''/a/b'' initial_state) = Inl (Wrap ErrNotAMountpoint ''/a/b'')"
proof -
  let ?s1 = "access (Canonicalize ''/a/b'') initial_state"
  obtain s2 where l: "loadMountInfo example_env ?s1 = (None, s2)"
    using example_load_path(1)[of "Canonicalize ''/a/b''"]
    by (cases "loadMountInfo example_env ?s1") simp
  have m: "mountsByPath s2 = [''/mnt 2'' \<mapsto> 1]"
    using example_load_path(2)[of "Canonicalize ''/a/b''"] by (simp add: l)
  have c: "canonicalizePath example_env ''/a/b'' = Inr ''/a/b''"
    by (simp add: example_env_def)
  have f: "FindMount example_env ''/a/b'' initial_state = (Inl (Wrap ErrNotAMountpoint ''/''), s2)"
    by (simp add: FindMount_def Let_def c l find_upward_example m)
  have g: "GetMount example_env ''/a/b'' initial_state = (Inl (Wrap ErrNotAMountpoint ''/a/b''), s2)"
    by (simp add: GetMount_def Let_def c l m)
  show ?thesis by (simp add: f g)
qed

end
